theory Spec2Isabelle
  imports Main "HOL-Library.AList"
begin

section \<open>PyLink: the shared S2S protocol base (protocols/ircs2s\_common.py)\<close>

text \<open>
  A shallow embedding of \<^verbatim>\<open>protocols/ircs2s_common.py\<close> and of the
  \<^verbatim>\<open>remote\<close> command of \<^verbatim>\<open>plugins/networks.py\<close>.
  Python exceptions are values of the type \<open>error\<close>; a method that mutates the
  network object returns the new network next to its result, also when it raises
  (the mutations made before a raise stay).
\<close>

datatype error =
    IndexError | KeyError | TypeError | NameError | RecursionError
  | LookupError | ProtocolError | AttributeError | NotAuthorizedError

subsection \<open>Strings\<close>

text \<open>\<^verbatim>\<open>s.startswith(':')\<close>\<close>

definition startswith_colon :: "string \<Rightarrow> bool" where
  "startswith_colon s = (case s of [] \<Rightarrow> False | c # _ \<Rightarrow> c = CHR '':'')"

text \<open>\<^verbatim>\<open>' '.join(xs)\<close>\<close>

fun join_sp :: "string list \<Rightarrow> string" where
  "join_sp [] = []"
| "join_sp [x] = x"
| "join_sp (x # y # ys) = x @ CHR '' '' # join_sp (y # ys)"

text \<open>\<^verbatim>\<open>s.split(sep)\<close> for a one-character separator: never an empty list.\<close>

fun split_on :: "char \<Rightarrow> string \<Rightarrow> string list" where
  "split_on sep [] = [[]]"
| "split_on sep (c # cs) =
     (if c = sep then [] # split_on sep cs
      else (case split_on sep cs of
              [] \<Rightarrow> [[c]]
            | w # ws \<Rightarrow> (c # w) # ws))"

text \<open>\<^verbatim>\<open>s.split(sep, 1)\<close>: at most one cut, at the first separator.\<close>

definition split_once :: "char \<Rightarrow> string \<Rightarrow> string list" where
  "split_once sep s =
     (if sep \<in> set s then [takeWhile (\<lambda>c. c \<noteq> sep) s, tl (dropWhile (\<lambda>c. c \<noteq> sep) s)]
      else [s])"

text \<open>\<^verbatim>\<open>s.lower()\<close>, on ASCII text (identifiers and host names of the protocol).\<close>

definition lower_char :: "char \<Rightarrow> char" where
  "lower_char c =
     (let n = (of_char c :: nat) in if 65 \<le> n \<and> n \<le> 90 then char_of (n + 32) else c)"

definition lower :: "string \<Rightarrow> string" where
  "lower s = map lower_char s"

subsection \<open>Argument parser\<close>

text \<open>
  The loop of \<^verbatim>\<open>parse_args\<close> over \<^verbatim>\<open>enumerate(args)\<close>: \<open>idx\<close> is the
  index of the head of the remaining fields, so the remaining fields are
  \<^verbatim>\<open>args[idx:]\<close>.
\<close>

fun parse_args_loop :: "nat \<Rightarrow> string list \<Rightarrow> string list \<Rightarrow> string list" where
  "parse_args_loop idx [] real_args = real_args"
| "parse_args_loop idx (arg # rest) real_args =
     (if startswith_colon arg \<and> idx \<noteq> 0
      then real_args @ [drop 1 (join_sp (arg # rest))]
      else parse_args_loop (Suc idx) rest (real_args @ [arg]))"

definition parse_args :: "string list \<Rightarrow> string list" where
  "parse_args args = parse_args_loop 0 args []"

text \<open>The same on a raw line: \<^verbatim>\<open>args.split(' ')\<close> first.\<close>

definition parse_args_str :: "string \<Rightarrow> string list" where
  "parse_args_str line = parse_args (split_on CHR '' '' line)"

text \<open>
  \<^verbatim>\<open>parse_prefixed_args\<close>: \<^verbatim>\<open>args[0] = args[0].split(':', 1)[1]\<close> raises
  IndexError on an empty list and when the split has one piece only.
\<close>

definition parse_prefixed_args :: "string list \<Rightarrow> error + string list" where
  "parse_prefixed_args args =
     (case parse_args args of
        [] \<Rightarrow> Inl IndexError
      | a0 # rest \<Rightarrow>
          (case split_once CHR '':'' a0 of
             _ # piece # _ \<Rightarrow> Inr (piece # rest)
           | _ \<Rightarrow> Inl IndexError))"

subsection \<open>Python containers\<close>

text \<open>
  \<^verbatim>\<open>xs[i]\<close> and \<^verbatim>\<open>xs[i] = v\<close> for a Python integer index: a negative index counts
  from the end, an index outside \<open>-len \<dots> len - 1\<close> raises IndexError (here: None).
\<close>

definition py_index :: "'a list \<Rightarrow> int \<Rightarrow> 'a option" where
  "py_index xs i =
     (if 0 \<le> i \<and> i < int (length xs) then Some (xs ! nat i)
      else if i < 0 \<and> - int (length xs) \<le> i then Some (xs ! nat (int (length xs) + i))
      else None)"

definition py_store :: "'a list \<Rightarrow> int \<Rightarrow> 'a \<Rightarrow> 'a list" where
  "py_store xs i v = (if 0 \<le> i then xs[nat i := v] else xs[nat (int (length xs) + i) := v])"

text \<open>\<^verbatim>\<open>s.find(c)\<close> for a one-character string: the first index, or -1.\<close>

fun py_find :: "string \<Rightarrow> char \<Rightarrow> int" where
  "py_find [] c = -1"
| "py_find (x # xs) c =
     (if x = c then 0 else (let r = py_find xs c in if r < 0 then -1 else r + 1))"

text \<open>
  A dict is an association list in insertion order with distinct keys:
  \<open>map_of\<close> reads, \<open>AList.update\<close> stores (in place, or appended when the key is new),
  \<open>AList.delete\<close> is \<^verbatim>\<open>del\<close>. A set is a list; \<^verbatim>\<open>discard\<close> is \<open>removeAll\<close>.
\<close>

definition has_key :: "('k \<times> 'v) list \<Rightarrow> 'k \<Rightarrow> bool" where
  "has_key d k = (k \<in> fst ` set d)"

subsection \<open>Identifier generator\<close>

record uidgen =
  allowedchars :: string
  uid_length :: int
  uidchars :: string
  uid_sid :: string

text \<open>
  \<^verbatim>\<open>__init__\<close>, for a subclass that has set \<^verbatim>\<open>allowedchars\<close> and \<^verbatim>\<open>length\<close>:
  \<^verbatim>\<open>[self.allowedchars[0]] * self.length\<close> (a count below one gives the empty list).
\<close>

definition uidgen_init :: "string \<Rightarrow> int \<Rightarrow> string \<Rightarrow> error + uidgen" where
  "uidgen_init chars len sid_text =
     (case chars of
        [] \<Rightarrow> Inl IndexError
      | c # _ \<Rightarrow> Inr \<lparr>allowedchars = chars, uid_length = len,
                        uidchars = replicate (nat len) c, uid_sid = sid_text\<rparr>)"

text \<open>
  \<^verbatim>\<open>increment(pos)\<close>. The result is the generator after the call and the exception the
  call raised, if any. Nothing in the method tests \<open>pos\<close> against 0: \<open>pos - 1\<close> goes
  below zero after the first position and Python reads a negative index from the end.
\<close>

function increment :: "uidgen \<Rightarrow> int \<Rightarrow> uidgen \<times> error option" where
  "increment g pos =
     (case py_index (uidchars g) pos of
        None \<Rightarrow> (g, Some IndexError)
      | Some c \<Rightarrow>
          (case py_index (allowedchars g) (- 1) of
             None \<Rightarrow> (g, Some IndexError)
           | Some final \<Rightarrow>
               if c = final then
                 (case py_index (allowedchars g) 0 of
                    None \<Rightarrow> (g, Some IndexError)
                  | Some first \<Rightarrow>
                      increment (g\<lparr>uidchars := py_store (uidchars g) pos first\<rparr>) (pos - 1))
               else
                 (let idx = py_find (allowedchars g) c in
                  case py_index (allowedchars g) (idx + 1) of
                    None \<Rightarrow> (g, Some IndexError)
                  | Some c' \<Rightarrow> (g\<lparr>uidchars := py_store (uidchars g) pos c'\<rparr>, None))))"
  by pat_completeness auto
termination
proof (relation "measure (\<lambda>(g, pos). nat (pos + int (length (uidchars g)) + 1))")
  show "wf (measure (\<lambda>(g, pos). nat (pos + int (length (uidchars g)) + 1)))" by simp
next
  fix g :: uidgen and pos :: int and c final first :: char
  assume "py_index (uidchars g) pos = Some c"
  then have "- int (length (uidchars g)) \<le> pos"
    by (auto simp: py_index_def split: if_splits)
  then show "((g\<lparr>uidchars := py_store (uidchars g) pos first\<rparr>, pos - 1), (g, pos))
      \<in> measure (\<lambda>(g, pos). nat (pos + int (length (uidchars g)) + 1))"
    by (simp add: py_store_def)
qed

declare increment.simps [simp del]

text \<open>
  \<^verbatim>\<open>next_uid\<close>: the identifier is built first, then \<^verbatim>\<open>increment()\<close> runs from
  \<^verbatim>\<open>self.length - 1\<close>; an exception of \<^verbatim>\<open>increment\<close> leaves the call without a result.
\<close>

definition next_uid :: "uidgen \<Rightarrow> uidgen \<times> (error + string)" where
  "next_uid g =
     (let uid = uid_sid g @ uidchars g in
      case increment g (uid_length g - 1) of
        (g', Some e) \<Rightarrow> (g', Inl e)
      | (g', None) \<Rightarrow> (g', Inr uid))"

text \<open>The results of \<open>n\<close> successive calls of \<^verbatim>\<open>next_uid\<close> on one generator.\<close>

fun next_uids :: "nat \<Rightarrow> uidgen \<Rightarrow> (error + string) list" where
  "next_uids 0 g = []"
| "next_uids (Suc n) g = (case next_uid g of (g', r) \<Rightarrow> r # next_uids n g')"

subsection \<open>Network state\<close>

text \<open>
  The data model of one network: the attributes of User, Channel, Server and of the
  network object that the methods below read and write. The classes themselves are
  declared outside the files at hand (\<^verbatim>\<open>pylinkirc.classes\<close>); \<open>sent\<close> is the
  list of lines handed to \<^verbatim>\<open>send\<close>, in order.
\<close>

record user =
  user_nick :: string
  user_away :: string
  user_account :: string
  user_channels :: "string list"

record channel =
  chan_users :: "string list"
  chan_topic :: string
  chan_topicset :: bool

record server =
  srv_name :: string
  srv_uplink :: "string option"
  srv_users :: "string list"
  srv_internal :: bool

record network =
  net_name :: string
  net_sid :: "string option"
  net_uplink :: "string option"
  servers :: "(string \<times> server) list"
  users :: "(string \<times> user) list"
  channels :: "(string \<times> channel) list"
  sent :: "string list"

text \<open>
  Modelled from the spec: the channel table \<^verbatim>\<open>self._channels\<close> (its class is not in
  the files at hand). A channel is "created on first join/topic burst", and the topic
  burst only indexes the table, so indexing a missing name creates an empty channel
  there; \<open>update_channel st name f\<close> is \<^verbatim>\<open>self._channels[name]\<close> followed by the
  in-place change \<open>f\<close> of that channel object.
\<close>

definition new_channel :: channel where
  "new_channel = \<lparr>chan_users = [], chan_topic = [], chan_topicset = False\<rparr>"

definition update_channel :: "network \<Rightarrow> string \<Rightarrow> (channel \<Rightarrow> channel) \<Rightarrow> network" where
  "update_channel st name f =
     st\<lparr>channels :=
          AList.update name
            (f (case map_of (channels st) name of Some c \<Rightarrow> c | None \<Rightarrow> new_channel))
            (channels st)\<rparr>"

text \<open>
  Modelled from the spec: \<^verbatim>\<open>Channel.remove_user\<close> (not in the files at hand) takes
  the user out of the channel's membership.
\<close>

definition remove_user :: "string \<Rightarrow> channel \<Rightarrow> channel" where
  "remove_user uid c = c\<lparr>chan_users := removeAll uid (chan_users c)\<rparr>"

text \<open>
  Modelled from the spec: a Channel is "removed when empty". \<open>drop_empty\<close> deletes,
  by key as \<^verbatim>\<open>del\<close> does, every entry of the channel table whose channel has no
  users.
\<close>

definition occupied :: "(string \<times> channel) list \<Rightarrow> string \<Rightarrow> bool" where
  "occupied chs name = (case map_of chs name of None \<Rightarrow> False | Some c \<Rightarrow> chan_users c \<noteq> [])"

definition drop_empty :: "(string \<times> channel) list \<Rightarrow> (string \<times> channel) list" where
  "drop_empty chs = filter (\<lambda>(name, c). occupied chs name) chs"

text \<open>
  Modelled from the spec: \<^verbatim>\<open>_remove_client\<close> (not in the files at hand) "removes the
  user from state", unconditionally: the user leaves every channel, and the channels
  that are then empty are removed; the user leaves the user table and the user set of
  its home server (here: of every server that lists it).
\<close>

definition remove_client :: "network \<Rightarrow> string \<Rightarrow> network" where
  "remove_client st uid =
     st\<lparr>channels := drop_empty (map (\<lambda>(name, c). (name, remove_user uid c)) (channels st)),
        users := AList.delete uid (users st),
        servers := map (\<lambda>(k, s). (k, s\<lparr>srv_users := removeAll uid (srv_users s)\<rparr>)) (servers st)\<rparr>"

text \<open>
  Modelled from the spec: \<^verbatim>\<open>nick_to_uid\<close> (not in the files at hand) gives the UID of
  the user with the given nickname, or None when no nickname matches.
\<close>

definition nick_to_uid :: "network \<Rightarrow> string \<Rightarrow> string option" where
  "nick_to_uid st nick = map_option fst (find (\<lambda>(uid, u). user_nick u = nick) (users st))"

text \<open>
  Modelled from the spec: \<^verbatim>\<open>is_internal_server\<close>, \<^verbatim>\<open>is_internal_client\<close> (not in the
  files at hand). An internally-owned server is a server this side owns (the flag
  \<open>srv_internal\<close>); an internally-owned client is a client homed on such a server.
\<close>

definition is_internal_server :: "network \<Rightarrow> string \<Rightarrow> bool" where
  "is_internal_server st sid =
     (case map_of (servers st) sid of Some s \<Rightarrow> srv_internal s | None \<Rightarrow> False)"

definition is_internal_client :: "network \<Rightarrow> string \<Rightarrow> bool" where
  "is_internal_client st uid =
     list_ex (\<lambda>(k, s). srv_internal s \<and> uid \<in> set (srv_users s)) (servers st)"

text \<open>
  Modelled from the spec: \<^verbatim>\<open>get_friendly_name\<close> (not in the files at hand) is the
  display name of an entity: the name of a server, the nickname of a user; the caller
  catches its KeyError for an identifier that is neither (here: None).
\<close>

definition get_friendly_name :: "network \<Rightarrow> string \<Rightarrow> string option" where
  "get_friendly_name st entity =
     (case map_of (servers st) entity of
        Some s \<Rightarrow> Some (srv_name s)
      | None \<Rightarrow> map_option user_nick (map_of (users st) entity))"

text \<open>\<^verbatim>\<open>_get_SID\<close>: the loop returns the first server whose lowered name matches.\<close>

definition get_SID :: "network \<Rightarrow> string \<Rightarrow> string" where
  "get_SID st sname =
     (let name = lower sname in
      if has_key (servers st) name then name
      else (case find (\<lambda>(k, v). lower (srv_name v) = name) (servers st) of
              Some (k, v) \<Rightarrow> k
            | None \<Rightarrow> sname))"

text \<open>\<^verbatim>\<open>_get_UID\<close>: \<^verbatim>\<open>nick_to_uid(target) or target\<close> (None and the empty string are falsy).\<close>

definition get_UID :: "network \<Rightarrow> string \<Rightarrow> string" where
  "get_UID st target =
     (if has_key (users st) target then target
      else (case nick_to_uid st target of
              None \<Rightarrow> target
            | Some uid \<Rightarrow> if uid = [] then target else uid))"

subsection \<open>State mutators\<close>

record part_payload =
  part_channels :: "string list"
  part_text :: string

text \<open>
  One round of the loop of \<^verbatim>\<open>handle_part\<close> for \<open>channel\<close>; \<open>chans\<close> is the list
  \<^verbatim>\<open>channels\<close> the hook will carry (\<^verbatim>\<open>list.remove\<close> takes the first occurrence out).
  The KeyError of an unknown \<open>source\<close> is caught in the source.
\<close>

definition part_step :: "string \<Rightarrow> string \<Rightarrow> network \<times> string list \<Rightarrow> network \<times> string list" where
  "part_step source channel acc =
     (case acc of (st, chans) \<Rightarrow>
        let chans' =
              (case map_of (channels st) channel of
                 None \<Rightarrow> remove1 channel chans
               | Some c \<Rightarrow> if source \<notin> set (chan_users c) then remove1 channel chans else chans);
            st1 = update_channel st channel (remove_user source);
            st2 =
              (case map_of (users st1) source of
                 None \<Rightarrow> st1
               | Some u \<Rightarrow>
                   st1\<lparr>users := AList.update source
                          (u\<lparr>user_channels := removeAll channel (user_channels u)\<rparr>) (users st1)\<rparr>)
        in (st2, chans'))"

text \<open>
  \<^verbatim>\<open>handle_part(source, command, args)\<close>; \<^verbatim>\<open>command\<close> is not read. The loop runs over
  a copy of the split of \<^verbatim>\<open>args[0]\<close>, which has at least one element, so \<^verbatim>\<open>reason\<close>
  is bound when the loop ends. The result None is "no hook".
\<close>

definition handle_part ::
  "network \<Rightarrow> string \<Rightarrow> string list \<Rightarrow> network \<times> (error + part_payload option)" where
  "handle_part st source args =
     (case args of
        [] \<Rightarrow> (st, Inl IndexError)
      | a0 # rest \<Rightarrow>
          (let chans0 = split_on CHR '','' a0 in
           case fold (part_step source) chans0 (st, chans0) of
             (st', chans) \<Rightarrow>
               let reason = (case rest of [] \<Rightarrow> [] | r # _ \<Rightarrow> r) in
               (st', Inr (if chans \<noteq> [] then Some \<lparr>part_channels = chans, part_text = reason\<rparr>
                          else None))))"

record kick_payload =
  kick_channel :: string
  kick_target :: string
  kick_text :: string

text \<open>\<^verbatim>\<open>handle_kick(source, command, args)\<close>: the result of \<^verbatim>\<open>handle_part\<close> is dropped.\<close>

definition handle_kick ::
  "network \<Rightarrow> string \<Rightarrow> string list \<Rightarrow> network \<times> (error + kick_payload)" where
  "handle_kick st source args =
     (case args of
        channel # a1 # rest \<Rightarrow>
          (let kicked = get_UID st a1;
               reason = (case rest of [] \<Rightarrow> [] | r # _ \<Rightarrow> r);
               st' = fst (handle_part st kicked [channel, reason])
           in (st', Inr \<lparr>kick_channel = channel, kick_target = kicked, kick_text = reason\<rparr>))
      | _ \<Rightarrow> (st, Inl IndexError))"

text \<open>\<^verbatim>\<open>handle_quit(numeric, command, args)\<close>: the client goes first, then \<^verbatim>\<open>args[0]\<close> is read.\<close>

definition handle_quit :: "network \<Rightarrow> string \<Rightarrow> string list \<Rightarrow> network \<times> (error + string)" where
  "handle_quit st numeric args =
     (let st' = remove_client st numeric in
      case args of [] \<Rightarrow> (st', Inl IndexError) | a0 # _ \<Rightarrow> (st', Inr a0))"

record kill_payload =
  kill_target :: string
  kill_text :: string
  kill_userdata :: "user option"

text \<open>
  \<^verbatim>\<open>handle_kill(source, command, args)\<close>. \<^verbatim>\<open>killer\<close> is computed as in the source and,
  as in the source, not read afterwards. The branch for an empty extracted message
  reads the name \<^verbatim>\<open>irc\<close>, which the module does not define: NameError.
\<close>

definition handle_kill ::
  "network \<Rightarrow> string \<Rightarrow> string list \<Rightarrow> network \<times> (error + kill_payload)" where
  "handle_kill st source args =
     (case args of
        [] \<Rightarrow> (st, Inl IndexError)
      | a0 # rest \<Rightarrow>
          (let killed = get_UID st a0;
               data = map_of (users st) killed;
               st1 = (case data of None \<Rightarrow> st | Some _ \<Rightarrow> remove_client st killed)
           in case rest of
                [] \<Rightarrow> (st1, Inl IndexError)
              | a1 # _ \<Rightarrow>
                  if CHR ''!'' \<in> set (hd (split_once CHR '' '' a1)) then
                    (let killer = (case get_friendly_name st1 source of
                                     Some n \<Rightarrow> n | None \<Rightarrow> source);
                         killmsg = butlast (tl (join_sp (tl (split_on CHR '' '' a1))))
                     in if killmsg = [] then (st1, Inl NameError)
                        else (st1, Inr \<lparr>kill_target = killed, kill_text = killmsg,
                                         kill_userdata = data\<rparr>))
                  else (st1, Inr \<lparr>kill_target = killed, kill_text = a1,
                                   kill_userdata = data\<rparr>)))"

subsection \<open>Topology cascade\<close>

record squit_payload =
  sq_target :: string
  sq_users :: "string list"
  sq_name :: string
  sq_uplink :: "string option"
  sq_nicks :: "(string \<times> string list) list"
  sq_serverdata :: server
  sq_channeldata :: "(string \<times> channel) list"
  sq_affected_servers :: "string list"

text \<open>\<^verbatim>\<open>affected_nicks[name].append(nick)\<close> on a \<^verbatim>\<open>defaultdict(list)\<close>.\<close>

definition nicks_append ::
  "string \<Rightarrow> string \<Rightarrow> (string \<times> string list) list \<Rightarrow> (string \<times> string list) list" where
  "nicks_append name nick d =
     AList.update name ((case map_of d name of None \<Rightarrow> [] | Some ns \<Rightarrow> ns) @ [nick]) d"

text \<open>
  The first loop of \<^verbatim>\<open>_squit\<close>, over the snapshot \<^verbatim>\<open>old_servers\<close>: \<open>rec\<close> is the
  recursive call \<^verbatim>\<open>self._squit(sid, 'SQUIT', [sid, "0", ...])\<close>. Its exception
  propagates; its result None cannot be subscripted (TypeError).
\<close>

fun squit_servers ::
  "(network \<Rightarrow> string list \<Rightarrow> network \<times> (error + squit_payload option)) \<Rightarrow> string \<Rightarrow>
   (string \<times> server) list \<Rightarrow> network \<times> string list \<times> string list \<Rightarrow>
   network \<times> (error + string list \<times> string list)" where
  "squit_servers rec split_server [] (st, affected_users, affected_servers) =
     (st, Inr (affected_users, affected_servers))"
| "squit_servers rec split_server ((sid, data) # rest) (st, affected_users, affected_servers) =
     (if srv_uplink data = Some split_server then
        (case rec st [sid, ''0'', ''PyLink: Automatically splitting leaf servers of '' @ sid] of
           (st', Inl e) \<Rightarrow> (st', Inl e)
         | (st', Inr None) \<Rightarrow> (st', Inl TypeError)
         | (st', Inr (Some res)) \<Rightarrow>
             squit_servers rec split_server rest
               (st', affected_users @ sq_users res, affected_servers @ sq_affected_servers res))
      else squit_servers rec split_server rest (st, affected_users, affected_servers))"

text \<open>
  \<^verbatim>\<open>old_channels = self._channels.copy()\<close> is a shallow copy: it keeps the keys the
  table had at the start of the call and shares the channel objects. \<open>snapshot_now\<close>
  is what the copy shows in a later state: the channel as it is now in the table, or,
  for a channel removed from the table since (it was removed empty), the channel
  without users.
\<close>

definition snapshot_now :: "(string \<times> channel) list \<Rightarrow> network \<Rightarrow> (string \<times> channel) list" where
  "snapshot_now old_channels st =
     map (\<lambda>(name, c0). (name, case map_of (channels st) name of
                                   Some c \<Rightarrow> c
                                 | None \<Rightarrow> c0\<lparr>chan_users := []\<rparr>))
         old_channels"

text \<open>
  The second loop, over a copy of the user set of the split server (the caller passes
  each element of the set once); the inner loop reads \<^verbatim>\<open>old_channels\<close>.
\<close>

fun squit_users ::
  "(string \<times> channel) list \<Rightarrow> string list \<Rightarrow>
   network \<times> string list \<times> (string \<times> string list) list \<Rightarrow>
   network \<times> (error + string list \<times> (string \<times> string list) list)" where
  "squit_users old_channels [] (st, affected_users, affected_nicks) =
     (st, Inr (affected_users, affected_nicks))"
| "squit_users old_channels (uid # rest) (st, affected_users, affected_nicks) =
     (case map_of (users st) uid of
        None \<Rightarrow> (st, Inl KeyError)
      | Some u \<Rightarrow>
          squit_users old_channels rest
            (remove_client st uid, affected_users @ [uid],
             fold (\<lambda>(name, cdata) d.
                     if uid \<in> set (chan_users cdata) then nicks_append name (user_nick u) d else d)
                  (snapshot_now old_channels st) affected_nicks))"

text \<open>
  \<^verbatim>\<open>_squit(numeric, command, args)\<close>, also bound as \<^verbatim>\<open>handle_squit\<close>; \<^verbatim>\<open>numeric\<close>
  and \<^verbatim>\<open>command\<close> are not read. The first argument is the number of nested calls the
  interpreter still allows (its recursion limit): at 0 the call raises RecursionError.
  The result None is the early return for an unknown server.
\<close>

primrec handle_squit ::
  "nat \<Rightarrow> network \<Rightarrow> string list \<Rightarrow> network \<times> (error + squit_payload option)" where
  "handle_squit 0 = (\<lambda>st args. (st, Inl RecursionError))"
| "handle_squit (Suc depth) = (\<lambda>st args.
     (case args of
        [] \<Rightarrow> (st, Inl IndexError)
      | a0 # _ \<Rightarrow>
          (let split_server = get_SID st a0 in
           if Some split_server = net_sid st \<or> Some split_server = net_uplink st
           then (st, Inl ProtocolError)
           else if \<not> has_key (servers st) split_server then (st, Inr None)
           else
             (case squit_servers (handle_squit depth) split_server (servers st)
                     (st, [], [split_server]) of
                (st1, Inl e) \<Rightarrow> (st1, Inl e)
              | (st1, Inr (users1, affected_servers)) \<Rightarrow>
                  (case map_of (servers st1) split_server of
                     None \<Rightarrow> (st1, Inl KeyError)
                   | Some srv \<Rightarrow>
                       (case squit_users (channels st) (remdups (srv_users srv))
                               (st1, users1, []) of
                          (st2, Inl e) \<Rightarrow> (st2, Inl e)
                        | (st2, Inr (affected_users, affected_nicks)) \<Rightarrow>
                            (case map_of (servers st2) split_server of
                               None \<Rightarrow> (st2, Inl KeyError)
                             | Some serverdata \<Rightarrow>
                                 (st2\<lparr>servers := AList.delete split_server (servers st2)\<rparr>,
                                  Inr (Some \<lparr>sq_target = split_server,
                                             sq_users = affected_users,
                                             sq_name = srv_name serverdata,
                                             sq_uplink = srv_uplink serverdata,
                                             sq_nicks = affected_nicks,
                                             sq_serverdata = serverdata,
                                             sq_channeldata = snapshot_now (channels st) st2,
                                             sq_affected_servers = affected_servers\<rparr>)))))))))"

subsection \<open>Inbound events\<close>

text \<open>
  The four membership-changing handlers as events, and the network after a sequence of
  them: an exception ends one handler, not the sequence, and the mutations made before
  it stay.
\<close>

datatype event =
    PART string "string list"
  | KICK string "string list"
  | QUIT string "string list"
  | SQUIT string "string list"

fun handle_event :: "nat \<Rightarrow> network \<Rightarrow> event \<Rightarrow> network" where
  "handle_event depth st (PART source args) = fst (handle_part st source args)"
| "handle_event depth st (KICK source args) = fst (handle_kick st source args)"
| "handle_event depth st (QUIT source args) = fst (handle_quit st source args)"
| "handle_event depth st (SQUIT source args) = fst (handle_squit depth st args)"

definition handle_events :: "nat \<Rightarrow> network \<Rightarrow> event list \<Rightarrow> network" where
  "handle_events depth st evs = fold (\<lambda>ev s. handle_event depth s ev) evs st"

subsection \<open>Outbound command builders\<close>

text \<open>
  Modelled from the spec: \<^verbatim>\<open>send\<close> (not in the files at hand) writes one line to the
  transport. \<^verbatim>\<open>_expandPUID\<close>, the dialect's expansion of placeholder identifiers, is
  the parameter \<open>expand\<close> of the builders.
\<close>

definition send :: "network \<Rightarrow> string \<Rightarrow> network" where
  "send st line = st\<lparr>sent := sent st @ [line]\<rparr>"

definition send_with_prefix :: "(string \<Rightarrow> string) \<Rightarrow> network \<Rightarrow> string \<Rightarrow> string \<Rightarrow> network" where
  "send_with_prefix expand st source msg = send st ('':'' @ expand source @ '' '' @ msg)"

definition invite ::
  "(string \<Rightarrow> string) \<Rightarrow> network \<Rightarrow> string \<Rightarrow> string \<Rightarrow> string \<Rightarrow> network \<times> (error + unit)" where
  "invite expand st source target channel =
     (if \<not> is_internal_client st source then (st, Inl LookupError)
      else (send_with_prefix expand st source (''INVITE '' @ expand target @ '' '' @ channel),
            Inr ()))"

text \<open>\<^verbatim>\<open>kick\<close>: \<^verbatim>\<open>not reason\<close> holds for None and for the empty string.\<close>

definition kick ::
  "(string \<Rightarrow> string) \<Rightarrow> network \<Rightarrow> string \<Rightarrow> string \<Rightarrow> string \<Rightarrow> string option \<Rightarrow>
   network \<times> (error + unit)" where
  "kick expand st numeric channel target reason =
     (if \<not> is_internal_client st numeric \<and> \<not> is_internal_server st numeric
      then (st, Inl LookupError)
      else
        (let reason' = (case reason of None \<Rightarrow> ''No reason given''
                        | Some r \<Rightarrow> if r = [] then ''No reason given'' else r);
             real_target = expand target;
             st1 = send_with_prefix expand st numeric
                     (''KICK '' @ channel @ '' '' @ real_target @ '' :'' @ reason')
         in (fst (handle_part st1 target [channel]), Inr ())))"

definition part ::
  "(string \<Rightarrow> string) \<Rightarrow> network \<Rightarrow> string \<Rightarrow> string \<Rightarrow> string option \<Rightarrow>
   network \<times> (error + unit)" where
  "part expand st client channel reason =
     (if \<not> is_internal_client st client then (st, Inl LookupError)
      else
        (let msg = ''PART '' @ channel @
                   (case reason of None \<Rightarrow> []
                    | Some r \<Rightarrow> if r = [] then [] else '' :'' @ r);
             st1 = send_with_prefix expand st client msg
         in (fst (handle_part st1 client [channel]), Inr ())))"

definition quit ::
  "(string \<Rightarrow> string) \<Rightarrow> network \<Rightarrow> string \<Rightarrow> string \<Rightarrow> network \<times> (error + unit)" where
  "quit expand st numeric reason =
     (if is_internal_client st numeric
      then (remove_client (send_with_prefix expand st numeric (''QUIT :'' @ reason)) numeric, Inr ())
      else (st, Inl LookupError))"

definition message ::
  "(string \<Rightarrow> string) \<Rightarrow> network \<Rightarrow> string \<Rightarrow> string \<Rightarrow> string \<Rightarrow> network \<times> (error + unit)" where
  "message expand st numeric target txt =
     (if \<not> is_internal_client st numeric then (st, Inl LookupError)
      else (send_with_prefix expand st numeric (''PRIVMSG '' @ expand target @ '' :'' @ txt),
            Inr ()))"

definition notice ::
  "(string \<Rightarrow> string) \<Rightarrow> network \<Rightarrow> string \<Rightarrow> string \<Rightarrow> string \<Rightarrow> network \<times> (error + unit)" where
  "notice expand st numeric target txt =
     (if \<not> is_internal_client st numeric \<and> \<not> is_internal_server st numeric
      then (st, Inl LookupError)
      else (send_with_prefix expand st numeric (''NOTICE '' @ expand target @ '' :'' @ txt),
            Inr ()))"

text \<open>
  \<^verbatim>\<open>squit(source, target, text)\<close>: the line is sent, then \<^verbatim>\<open>handle_squit\<close> runs on
  \<^verbatim>\<open>[target, text]\<close>; its exception propagates and its result is dropped.
\<close>

definition squit ::
  "nat \<Rightarrow> (string \<Rightarrow> string) \<Rightarrow> network \<Rightarrow> string \<Rightarrow> string \<Rightarrow> string \<Rightarrow>
   network \<times> (error + unit)" where
  "squit depth expand st source target txt =
     (let st1 = send_with_prefix expand st source (''SQUIT '' @ expand target @ '' :'' @ txt) in
      case handle_squit depth st1 [target, txt] of
        (st2, Inl e) \<Rightarrow> (st2, Inl e)
      | (st2, Inr _) \<Rightarrow> (st2, Inr ()))"

definition topic ::
  "(string \<Rightarrow> string) \<Rightarrow> network \<Rightarrow> string \<Rightarrow> string \<Rightarrow> string \<Rightarrow> network \<times> (error + unit)" where
  "topic expand st source target txt =
     (if \<not> is_internal_client st source \<and> \<not> is_internal_server st source
      then (st, Inl LookupError)
      else
        (let st1 = send_with_prefix expand st source (''TOPIC '' @ target @ '' :'' @ txt);
             st2 = update_channel st1 target (\<lambda>c. c\<lparr>chan_topic := txt\<rparr>);
             st3 = update_channel st2 target (\<lambda>c. c\<lparr>chan_topicset := True\<rparr>)
         in (st3, Inr ())))"

text \<open>\<^verbatim>\<open>numeric\<close>: the numeric is taken as its text.\<close>

definition numeric ::
  "(string \<Rightarrow> string) \<Rightarrow> network \<Rightarrow> string \<Rightarrow> string \<Rightarrow> string \<Rightarrow> string \<Rightarrow>
   network \<times> (error + unit)" where
  "numeric expand st source num target txt =
     (send_with_prefix expand st source (num @ '' '' @ expand target @ '' '' @ txt), Inr ())"

subsection \<open>The remote command (plugins/networks.py)\<close>

text \<open>
  The objects the command touches: the network objects of \<^verbatim>\<open>world.networkobjects\<close>
  by name, the services with their UID per network, the process-wide flag
  \<^verbatim>\<open>REMOTE_IN_USE\<close>, the texts given to \<^verbatim>\<open>irc.error\<close> (with the name of the network
  they were reported on). \<open>irc_reply_to\<close> is the network the object's \<^verbatim>\<open>_reply\<close>
  routes to while it is overridden (None: its own).
\<close>

record irc_obj =
  irc_name :: string
  irc_connected :: bool
  irc_called_in :: string
  irc_called_by :: string
  irc_pseudoclient :: "(string \<times> string) option"
  irc_accounts :: "(string \<times> string) list"
  irc_reply_to :: "string option"

record world =
  networkobjects :: "(string \<times> irc_obj) list"
  services :: "(string \<times> (string \<times> string) list) list"
  REMOTE_IN_USE :: bool
  errors :: "(string \<times> string) list"

record remote_args =
  ra_service :: string
  ra_network :: string
  ra_command :: "string list"

definition irc_error :: "world \<Rightarrow> irc_obj \<Rightarrow> string \<Rightarrow> world" where
  "irc_error w irc msg = w\<lparr>errors := errors w @ [(irc_name irc, msg)]\<rparr>"

text \<open>\<^verbatim>\<open>'%r' % s\<close> for a name without quotes or escapes.\<close>

definition repr :: "string \<Rightarrow> string" where
  "repr s = [CHR 0x27] @ s @ [CHR 0x27]"

definition remote_permissions :: "remote_args \<Rightarrow> string list" where
  "remote_permissions args =
     [''networks.remote'',
      ''networks.remote.'' @ ra_network args,
      ''networks.remote.'' @ ra_network args @ ''.'' @ ra_service args,
      ''networks.remote.'' @ ra_network args @ ''.'' @ ra_service args @ ''.'' @ hd (ra_command args)]"

text \<open>
  \<^verbatim>\<open>remote(irc, source, args)\<close> after \<^verbatim>\<open>remote_parser.parse_args\<close>. Parameters, for
  what lies outside the files at hand: \<open>check_permissions\<close> tells whether
  \<^verbatim>\<open>permissions.check_permissions\<close> returns for the list of permissions (it raises
  otherwise); \<open>call_cmd\<close> is the service's \<^verbatim>\<open>call_cmd\<close> on the remote network, giving
  the world after it and the exception it raised, if any. The result is the world after
  the command and the exception that left it, if any.
\<close>

definition remote ::
  "(string list \<Rightarrow> bool) \<Rightarrow>
   (world \<Rightarrow> string \<Rightarrow> string \<Rightarrow> string \<Rightarrow> string \<Rightarrow> world \<times> error option) \<Rightarrow>
   world \<Rightarrow> irc_obj \<Rightarrow> string \<Rightarrow> remote_args \<Rightarrow> world \<times> error option" where
  "remote check_permissions call_cmd w irc source args =
     (if ra_command args = [] then (irc_error w irc ''No command given!'', None)
      else
        (let netname = ra_network args in
         if \<not> check_permissions (remote_permissions args) then (w, Some NotAuthorizedError)
         else if REMOTE_IN_USE w
         then (irc_error w irc (''The '' @ repr ''remote'' @ '' command can not be nested.''), None)
         else
           (let w1 = w\<lparr>REMOTE_IN_USE := True\<rparr> in
            if netname = irc_name irc
            then ((irc_error w1 irc
                     ''Cannot remote-send a command to the local network; use a normal command!'')
                    \<lparr>REMOTE_IN_USE := False\<rparr>, None)
            else
              (case map_of (networkobjects w1) netname of
                 None \<Rightarrow>
                   ((irc_error w1 irc (''No such network '' @ repr netname @ '' (case sensitive).''))
                      \<lparr>REMOTE_IN_USE := False\<rparr>, None)
               | Some remoteirc \<Rightarrow>
                   (case map_of (services w1) (ra_service args) of
                      None \<Rightarrow>
                        ((irc_error w1 irc (''Unknown service '' @ repr (ra_service args) @ ''.''))
                           \<lparr>REMOTE_IN_USE := False\<rparr>, None)
                    | Some uids \<Rightarrow>
                        if \<not> irc_connected remoteirc
                        then ((irc_error w1 irc (''Network '' @ repr netname @ '' is not connected.''))
                                \<lparr>REMOTE_IN_USE := False\<rparr>, None)
                        else if (case map_of uids netname of None \<Rightarrow> True | Some u \<Rightarrow> u = [])
                        then ((irc_error w1 irc
                                 (''The requested service '' @ repr (ra_service args) @
                                  '' is not available on '' @ repr netname @ ''.''))
                                \<lparr>REMOTE_IN_USE := False\<rparr>, None)
                        else
                          (case irc_pseudoclient remoteirc of
                             None \<Rightarrow> (w1\<lparr>REMOTE_IN_USE := False\<rparr>, Some AttributeError)
                           | Some (uid, acct) \<Rightarrow>
                               (let r1 = remoteirc\<lparr>irc_called_in := uid, irc_called_by := uid\<rparr>;
                                    w2 = w1\<lparr>networkobjects :=
                                              AList.update netname r1 (networkobjects w1)\<rparr>
                                in case map_of (irc_accounts irc) source of
                                     None \<Rightarrow> (w2\<lparr>REMOTE_IN_USE := False\<rparr>, Some KeyError)
                                   | Some account \<Rightarrow>
                                       (let r2 = r1\<lparr>irc_pseudoclient := Some (uid, account),
                                                    irc_reply_to := Some (irc_name irc)\<rparr>;
                                            w3 = w2\<lparr>networkobjects :=
                                                      AList.update netname r2 (networkobjects w2)\<rparr>
                                        in case call_cmd w3 (ra_service args) netname uid
                                                  (join_sp (ra_command args)) of
                                             (w4, exn) \<Rightarrow>
                                               (w4\<lparr>networkobjects :=
                                                      AList.map_entry netname
                                                        (\<lambda>r. r\<lparr>irc_reply_to := irc_reply_to remoteirc,
                                                                irc_pseudoclient :=
                                                                  map_option (\<lambda>(u, a). (u, []))
                                                                    (irc_pseudoclient r)\<rparr>)
                                                        (networkobjects w4),
                                                    REMOTE_IN_USE := False\<rparr>, exn)))))))))"

subsection \<open>Membership and topology, as the claims speak of them\<close>

text \<open>The member set of a channel name and the channel set of a UID (empty when unknown).\<close>

definition members :: "network \<Rightarrow> string \<Rightarrow> string set" where
  "members st c = (case map_of (channels st) c of None \<Rightarrow> {} | Some ch \<Rightarrow> set (chan_users ch))"

definition channels_of :: "network \<Rightarrow> string \<Rightarrow> string set" where
  "channels_of st u = (case map_of (users st) u of None \<Rightarrow> {} | Some ud \<Rightarrow> set (user_channels ud))"

definition consistent :: "network \<Rightarrow> bool" where
  "consistent st = (\<forall>c u. (u \<in> members st c) = (c \<in> channels_of st u))"

text \<open>
  The server tree. \<open>children srvs x\<close> are the servers whose uplink is \<open>x\<close>;
  \<open>subtree n srvs x\<close> lists \<open>x\<close> and the servers uplinked to it through at most \<open>n\<close>
  links, a parent before its children; \<open>height_le n srvs x\<close> says that no chain of
  uplinks ending in \<open>x\<close> has more than \<open>n\<close> links. The table forms a tree (a forest:
  this side and its uplink may both be roots) when its keys are distinct, as in a dict,
  and no chain of uplinks is longer than the table, that is, there is no cycle.
\<close>

definition children :: "(string \<times> server) list \<Rightarrow> string \<Rightarrow> string list" where
  "children srvs x = map fst (filter (\<lambda>(k, d). srv_uplink d = Some x) srvs)"

fun subtree :: "nat \<Rightarrow> (string \<times> server) list \<Rightarrow> string \<Rightarrow> string list" where
  "subtree 0 srvs x = [x]"
| "subtree (Suc n) srvs x = x # concat (map (subtree n srvs) (children srvs x))"

fun height_le :: "nat \<Rightarrow> (string \<times> server) list \<Rightarrow> string \<Rightarrow> bool" where
  "height_le 0 srvs x = (children srvs x = [])"
| "height_le (Suc n) srvs x = list_all (height_le n srvs) (children srvs x)"

definition server_tree :: "network \<Rightarrow> bool" where
  "server_tree st =
     (distinct (map fst (servers st))
      \<and> list_all (\<lambda>(k, d). height_le (length (servers st)) (servers st) k) (servers st))"

text \<open>The users homed on the servers of a list.\<close>

definition homed :: "(string \<times> server) list \<Rightarrow> string list \<Rightarrow> string list" where
  "homed srvs ks =
     concat (map (\<lambda>k. case map_of srvs k of None \<Rightarrow> [] | Some d \<Rightarrow> srv_users d) ks)"

text \<open>
  Every UID in a server's user set is in the user table, and is in the user set of no
  other server (a user has one home).
\<close>

definition homes_ok :: "network \<Rightarrow> bool" where
  "homes_ok st =
     list_all
       (\<lambda>(k, d). list_all
          (\<lambda>u. has_key (users st) u
                \<and> list_all (\<lambda>(k', d'). k' = k \<or> u \<notin> set (srv_users d')) (servers st))
          (srv_users d))
       (servers st)"

text \<open>Every SID of the table is resolved to itself by \<^verbatim>\<open>_get_SID\<close>.\<close>

definition sid_stable :: "network \<Rightarrow> bool" where
  "sid_stable st = list_all (\<lambda>(k, d). get_SID st k = k) (servers st)"

text \<open>Neither this side's SID nor its uplink is among the servers of a list.\<close>

definition spares_self :: "network \<Rightarrow> string list \<Rightarrow> bool" where
  "spares_self st ks = list_all (\<lambda>k. Some k \<noteq> net_sid st \<and> Some k \<noteq> net_uplink st) ks"

text \<open>
  What "no channel membership or user state changes" compares: the user table, the
  server table, the lines sent and the member set of every channel name.
\<close>

definition same_membership :: "network \<Rightarrow> network \<Rightarrow> bool" where
  "same_membership st st' =
     (users st' = users st \<and> servers st' = servers st \<and> sent st' = sent st
      \<and> members st' = members st)"

text \<open>
  A small network for the concrete cases: this side is 0AL with one client, its uplink
  70M has one client, the leaf 9PZ hangs off 70M and 8XY off 9PZ, each with one client.
\<close>

definition example_net :: network where
  "example_net =
     \<lparr>net_name = ''net'', net_sid = Some ''0AL'', net_uplink = Some ''70M'',
      servers =
        [(''0AL'', \<lparr>srv_name = ''pylink.local'', srv_uplink = None,
                    srv_users = [''0ALAAAAAA''], srv_internal = True\<rparr>),
         (''70M'', \<lparr>srv_name = ''hub.local'', srv_uplink = None,
                    srv_users = [''70MAAAAAA''], srv_internal = False\<rparr>),
         (''9PZ'', \<lparr>srv_name = ''leaf.local'', srv_uplink = Some ''70M'',
                    srv_users = [''9PZAAAAAA''], srv_internal = False\<rparr>),
         (''8XY'', \<lparr>srv_name = ''far.local'', srv_uplink = Some ''9PZ'',
                    srv_users = [''8XYAAAAAA''], srv_internal = False\<rparr>)],
      users =
        [(''0ALAAAAAA'', \<lparr>user_nick = ''PyLink'', user_away = [], user_account = [],
                          user_channels = [''#test'']\<rparr>),
         (''70MAAAAAA'', \<lparr>user_nick = ''GL'', user_away = [], user_account = [],
                          user_channels = [''#test'']\<rparr>),
         (''9PZAAAAAA'', \<lparr>user_nick = ''leafy'', user_away = [], user_account = [],
                          user_channels = [''#test'', ''#leaf'']\<rparr>),
         (''8XYAAAAAA'', \<lparr>user_nick = ''far'', user_away = [], user_account = [],
                          user_channels = [''#leaf'']\<rparr>)],
      channels =
        [(''#test'', \<lparr>chan_users = [''0ALAAAAAA'', ''70MAAAAAA'', ''9PZAAAAAA''],
                      chan_topic = [], chan_topicset = False\<rparr>),
         (''#leaf'', \<lparr>chan_users = [''9PZAAAAAA'', ''8XYAAAAAA''],
                      chan_topic = [], chan_topicset = False\<rparr>)],
      sent = []\<rparr>"

text \<open>
  For the proof of the cascade: the uplink relation of a server table, the set of
  servers transitively uplinked to \<open>x\<close> (with \<open>x\<close>), the users homed on a set of
  servers, and the network with the servers \<open>D\<close> and the users \<open>U\<close> taken out
  (when a user is taken out, so are the channels left empty).
\<close>

definition uplink_rel :: "(string \<times> server) list \<Rightarrow> (string \<times> string) set" where
  "uplink_rel srvs = {(k, u). \<exists>d. map_of srvs k = Some d \<and> srv_uplink d = Some u}"

definition below :: "(string \<times> server) list \<Rightarrow> string \<Rightarrow> string set" where
  "below srvs x = {k. (k, x) \<in> rtrancl (uplink_rel srvs)}"

definition homed_set :: "(string \<times> server) list \<Rightarrow> string set \<Rightarrow> string set" where
  "homed_set srvs D = {u. \<exists>k \<in> D. \<exists>d. map_of srvs k = Some d \<and> u \<in> set (srv_users d)}"

definition purge_channels :: "string set \<Rightarrow> (string \<times> channel) list \<Rightarrow> (string \<times> channel) list" where
  "purge_channels U chs =
     map (\<lambda>(c, ch). (c, ch\<lparr>chan_users := filter (\<lambda>u. u \<notin> U) (chan_users ch)\<rparr>)) chs"

definition split_off :: "string set \<Rightarrow> string set \<Rightarrow> network \<Rightarrow> network" where
  "split_off D U st =
     st\<lparr>channels := (if U = {} then channels st
                     else drop_empty (purge_channels U (channels st))),
        users := filter (\<lambda>(u, d). u \<notin> U) (users st),
        servers := map (\<lambda>(k, d). (k, d\<lparr>srv_users := filter (\<lambda>u. u \<notin> U) (srv_users d)\<rparr>))
                      (filter (\<lambda>(k, d). k \<notin> D) (servers st))\<rparr>"

text \<open>
  \<open>ready d st x\<close>: the cascade on \<open>x\<close> can run within \<open>d\<close> nested calls;
  \<open>cascaded st x r\<close>: \<open>r\<close> is the result of a cascade that removed exactly the
  servers below \<open>x\<close> and their users.
\<close>

definition ready :: "nat \<Rightarrow> network \<Rightarrow> string \<Rightarrow> bool" where
  "ready d st x =
     (distinct (map fst (servers st)) \<and> has_key (servers st) x
      \<and> (\<exists>n<d. height_le n (servers st) x)
      \<and> (\<forall>k. has_key (servers st) k \<longrightarrow> get_SID st k = k)
      \<and> (\<forall>k \<in> below (servers st) x. Some k \<noteq> net_sid st \<and> Some k \<noteq> net_uplink st)
      \<and> homed_set (servers st) (below (servers st) x) \<subseteq> fst ` set (users st))"

definition cascaded ::
  "network \<Rightarrow> string \<Rightarrow> network \<times> (error + squit_payload option) \<Rightarrow> bool" where
  "cascaded st x r =
     (\<exists>p. r = (split_off (below (servers st) x)
                  (homed_set (servers st) (below (servers st) x)) st, Inr (Some p))
          \<and> set (sq_affected_servers p) = below (servers st) x
          \<and> distinct (sq_affected_servers p)
          \<and> set (sq_users p) = homed_set (servers st) (below (servers st) x)
          \<and> sq_target p = x)"

text \<open>
  Two more networks for concrete cases: in \<open>hub_net\<close> the uplink 70M is itself
  uplinked to 1HB; in \<open>folded_net\<close> two SIDs differ only in case.
\<close>

definition hub_net :: network where
  "hub_net =
     \<lparr>net_name = ''net'', net_sid = Some ''0AL'', net_uplink = Some ''70M'',
      servers =
        [(''0AL'', \<lparr>srv_name = ''pylink.local'', srv_uplink = None,
                    srv_users = [], srv_internal = True\<rparr>),
         (''70M'', \<lparr>srv_name = ''hub.local'', srv_uplink = Some ''1HB'',
                    srv_users = [], srv_internal = False\<rparr>),
         (''1HB'', \<lparr>srv_name = ''top.local'', srv_uplink = None,
                    srv_users = [], srv_internal = False\<rparr>)],
      users = [], channels = [], sent = []\<rparr>"

definition folded_net :: network where
  "folded_net =
     \<lparr>net_name = ''net'', net_sid = Some ''AA'', net_uplink = Some ''AB'',
      servers =
        [(''AA'', \<lparr>srv_name = ''pylink.local'', srv_uplink = None,
                   srv_users = [], srv_internal = True\<rparr>),
         (''AB'', \<lparr>srv_name = ''hub.local'', srv_uplink = None,
                   srv_users = [], srv_internal = False\<rparr>),
         (''AC'', \<lparr>srv_name = ''leaf.local'', srv_uplink = Some ''AB'',
                   srv_users = [], srv_internal = False\<rparr>),
         (''Ad'', \<lparr>srv_name = ''sub.local'', srv_uplink = Some ''AC'',
                   srv_users = [], srv_internal = False\<rparr>),
         (''ad'', \<lparr>srv_name = ''other.local'', srv_uplink = Some ''AB'',
                   srv_users = [], srv_internal = False\<rparr>)],
      users = [], channels = [], sent = []\<rparr>"

text \<open>
  \<open>ops_net\<close> is the example network with two more channels: \#ops, which only the
  clients of 0AL and 70M are in, and \#idle, which nobody is in.
\<close>

definition ops_net :: network where
  "ops_net =
     example_net
       \<lparr>users :=
          [(''0ALAAAAAA'', \<lparr>user_nick = ''PyLink'', user_away = [], user_account = [],
                            user_channels = [''#test'', ''#ops'']\<rparr>),
           (''70MAAAAAA'', \<lparr>user_nick = ''GL'', user_away = [], user_account = [],
                            user_channels = [''#test'', ''#ops'']\<rparr>),
           (''9PZAAAAAA'', \<lparr>user_nick = ''leafy'', user_away = [], user_account = [],
                            user_channels = [''#test'', ''#leaf'']\<rparr>),
           (''8XYAAAAAA'', \<lparr>user_nick = ''far'', user_away = [], user_account = [],
                            user_channels = [''#leaf'']\<rparr>)],
        channels :=
          channels example_net @
          [(''#ops'', \<lparr>chan_users = [''0ALAAAAAA'', ''70MAAAAAA''],
                       chan_topic = ''staff'', chan_topicset = True\<rparr>),
           (''#idle'', new_channel)]\<rparr>"

text \<open>A small world for the concrete cases of the remote command: two networks, one service.\<close>

definition example_irc :: irc_obj where
  "example_irc =
     \<lparr>irc_name = ''net1'', irc_connected = True, irc_called_in = [], irc_called_by = [],
      irc_pseudoclient = Some (''0ALAAAAAA'', []), irc_accounts = [(''70MAAAAAA'', ''admin'')],
      irc_reply_to = None\<rparr>"

definition example_world :: world where
  "example_world =
     \<lparr>networkobjects = [(''net1'', example_irc), (''net2'', example_irc\<lparr>irc_name := ''net2''\<rparr>)],
      services = [(''pylink'', [(''net1'', ''0ALAAAAAA''), (''net2'', ''0ALAAAAAA'')])],
      REMOTE_IN_USE = False, errors = []\<rparr>"

section \<open>Properties\<close>

subsection \<open>Argument parser\<close>

lemma parse_args_loop_no_marker:
  "\<forall>a \<in> set xs. \<not> startswith_colon a \<Longrightarrow>
   parse_args_loop idx (xs @ ys) acc = parse_args_loop (idx + length xs) ys (acc @ xs)"
  by (induction xs arbitrary: idx acc) simp_all

lemma parse_args_loop_head:
  "parse_args_loop 0 (a # xs) acc = parse_args_loop (Suc 0) xs (acc @ [a])"
  by simp

text \<open>
  C8. When field \<open>i\<close> (\<open>i > 0\<close>) is the first field after the first that begins with
  \<open>:\<close>, the parser returns the fields before it unchanged, then one last argument: the
  fields from \<open>i\<close> on joined with single spaces, without the leading \<open>:\<close>. In particular
  the fields PRIVMSG, \#chan, :hello, world give PRIVMSG, \#chan, "hello world".
\<close>

theorem parse_args_rest_of_line:
  assumes "0 < i" and "i < length args"
    and "startswith_colon (args ! i)"
    and "\<And>j. 0 < j \<Longrightarrow> j < i \<Longrightarrow> \<not> startswith_colon (args ! j)"
  shows "parse_args args = take i args @ [drop 1 (join_sp (drop i args))]
         \<and> parse_args [''PRIVMSG'', ''#chan'', '':hello'', ''world'']
             = [''PRIVMSG'', ''#chan'', ''hello world'']"
proof -
  obtain a xs where args: "args = a # xs"
    using assms(2) by (cases args) auto
  define pre where "pre = take (i - 1) xs"
  define post where "post = drop (i - 1) xs"
  have xs: "xs = pre @ post" by (simp add: pre_def post_def)
  have len: "length pre = i - 1" using assms(1,2) args by (simp add: pre_def)
  have pre_ok: "\<forall>b \<in> set pre. \<not> startswith_colon b"
  proof
    fix b assume "b \<in> set pre"
    then obtain k where k: "k < length pre" "pre ! k = b"
      by (auto simp: in_set_conv_nth)
    have "pre ! k = args ! (Suc k)" using k(1) by (simp add: pre_def args)
    moreover have "\<not> startswith_colon (args ! (Suc k))"
      using assms(4) [of "Suc k"] k(1) len by simp
    ultimately show "\<not> startswith_colon b" using k(2) by simp
  qed
  obtain m rest where post: "post = m # rest" and m: "m = args ! i"
  proof -
    have "i - 1 < length xs" using assms(1,2) args by auto
    then have "post = xs ! (i - 1) # drop (Suc (i - 1)) xs"
      by (simp add: post_def Cons_nth_drop_Suc)
    moreover have "xs ! (i - 1) = args ! i" using assms(1) args by (cases i) auto
    ultimately show ?thesis using that by blast
  qed
  have "parse_args args = parse_args_loop (Suc 0) (pre @ post) [a]"
    by (simp add: parse_args_def args xs)
  also have "\<dots> = parse_args_loop (Suc 0 + length pre) post ([a] @ pre)"
    using parse_args_loop_no_marker [OF pre_ok] by blast
  also have "\<dots> = ([a] @ pre) @ [drop 1 (join_sp post)]"
    using assms(3) by (simp add: post m)
  finally have gen: "parse_args args = (a # pre) @ [drop 1 (join_sp post)]" by simp
  have "take i args = a # pre" using assms(1) by (cases i) (auto simp: args pre_def)
  moreover have "drop i args = post" using assms(1) by (cases i) (auto simp: args post_def)
  ultimately have "parse_args args = take i args @ [drop 1 (join_sp (drop i args))]"
    using gen by simp
  moreover have "parse_args [''PRIVMSG'', ''#chan'', '':hello'', ''world'']
      = [''PRIVMSG'', ''#chan'', ''hello world'']"
    by (simp add: parse_args_def startswith_colon_def)
  ultimately show ?thesis by simp
qed

theorem parse_args_rest_of_line_witness:
  "parse_args [''PRIVMSG'', ''#chan'', '':hello'', ''world'']
     = take 2 [''PRIVMSG'', ''#chan'', '':hello'', ''world'']
       @ [drop 1 (join_sp (drop 2 [''PRIVMSG'', ''#chan'', '':hello'', ''world'']))]"
proof -
  have nomark: "\<And>j. 0 < j \<Longrightarrow> j < (2::nat) \<Longrightarrow>
      \<not> startswith_colon ([''PRIVMSG'', ''#chan'', '':hello'', ''world''] ! j)"
  proof -
    fix j :: nat assume "0 < j" "j < 2"
    then have "j = 1" by simp
    then show "\<not> startswith_colon ([''PRIVMSG'', ''#chan'', '':hello'', ''world''] ! j)"
      by (simp add: startswith_colon_def)
  qed
  show ?thesis
    using parse_args_rest_of_line [of 2 "[''PRIVMSG'', ''#chan'', '':hello'', ''world'']", OF _ _ _ nomark]
    by (simp add: startswith_colon_def)
qed

lemma parse_args_loop_acc:
  "parse_args_loop idx xs acc = acc @ parse_args_loop idx xs []"
proof (induction xs arbitrary: idx acc)
  case Nil
  show ?case by simp
next
  case (Cons a xs)
  show ?case
    using Cons.IH [of "Suc idx" "acc @ [a]"] Cons.IH [of "Suc idx" "[a]"] by simp
qed

lemma parse_args_Cons: "parse_args (a # xs) = a # parse_args_loop (Suc 0) xs []"
  using parse_args_loop_acc [of "Suc 0" xs "[a]"] by (simp add: parse_args_def)

text \<open>
  C10. On a non-empty argument list whose first element has no \<open>:\<close>, the
  sender-prefixed parser raises IndexError; the base parser returns a list (whose head
  is that first element) on the same input.
\<close>

theorem parse_prefixed_args_partial:
  assumes "args \<noteq> []" and "CHR '':'' \<notin> set (hd args)"
  shows "parse_prefixed_args args = Inl IndexError
         \<and> (\<exists>rest. parse_args args = hd args # rest)"
proof -
  obtain a xs where args: "args = a # xs" using assms(1) by (cases args) auto
  have "split_once CHR '':'' a = [a]" using assms(2) by (simp add: split_once_def args)
  then show ?thesis
    by (simp add: parse_prefixed_args_def args parse_args_Cons)
qed

theorem parse_prefixed_args_partial_witness:
  "parse_prefixed_args [''PRIVMSG'', ''#chan''] = Inl IndexError
   \<and> (\<exists>rest. parse_args [''PRIVMSG'', ''#chan''] = ''PRIVMSG'' # rest)"
  using parse_prefixed_args_partial [of "[''PRIVMSG'', ''#chan'']"] by simp

subsection \<open>Identifier generator\<close>

text \<open>
  C2. The claim asks for an overflow error on call N+1. On the alphabet AB with width 1
  (N = 2) the generator made by the constructor returns 0ALA, then 0ALB, and the third
  call returns 0ALB again, with no error: after the last identifier \<^verbatim>\<open>increment\<close>
  carries to position -1, which Python reads as the last position.
\<close>

theorem next_uid_repeats_after_exhaustion:
  "uidgen_init ''AB'' 1 ''0AL''
     = Inr \<lparr>allowedchars = ''AB'', uid_length = 1, uidchars = ''A'', uid_sid = ''0AL''\<rparr>
   \<and> next_uids 3 \<lparr>allowedchars = ''AB'', uid_length = 1, uidchars = ''A'', uid_sid = ''0AL''\<rparr>
       = [Inr ''0ALA'', Inr ''0ALB'', Inr ''0ALB'']"
  by code_simp

text \<open>With width 2 the four identifiers come out in order and the fifth call repeats the
  second.\<close>

lemma next_uid_width_two:
  "next_uids 5 \<lparr>allowedchars = ''AB'', uid_length = 2, uidchars = ''AA'', uid_sid = ''0AL''\<rparr>
     = [Inr ''0ALAA'', Inr ''0ALAB'', Inr ''0ALBA'', Inr ''0ALBB'', Inr ''0ALAB'']"
  by code_simp

text \<open>With a single symbol the first call already raises IndexError, after the carry ran
  off the negative end.\<close>

lemma next_uid_single_symbol:
  "next_uids 1 \<lparr>allowedchars = ''A'', uid_length = 2, uidchars = ''AA'', uid_sid = ''0AL''\<rparr>
     = [Inl IndexError]"
  by code_simp

subsection \<open>Netsplit targets\<close>

text \<open>
  C4. When the target of an inbound SQUIT resolves to this side's own SID or to its
  uplink, the handler raises ProtocolError and the network is the one it was given.
\<close>

theorem handle_squit_rejects_self_and_uplink:
  assumes "Some (get_SID st a0) = net_sid st \<or> Some (get_SID st a0) = net_uplink st"
  shows "handle_squit (Suc depth) st (a0 # rest) = (st, Inl ProtocolError)"
  using assms by (simp add: Let_def)

theorem handle_squit_rejects_self_and_uplink_witness:
  "handle_squit (Suc 0) example_net [''0AL'', ''bye''] = (example_net, Inl ProtocolError)
   \<and> handle_squit (Suc 0) example_net [''hub.local'', ''bye''] = (example_net, Inl ProtocolError)"
proof -
  have a: "Some (get_SID example_net ''0AL'') = net_sid example_net" by code_simp
  have b: "Some (get_SID example_net ''hub.local'') = net_uplink example_net" by code_simp
  show ?thesis
    using handle_squit_rejects_self_and_uplink [of example_net "''0AL''" 0 "[''bye'']"]
      handle_squit_rejects_self_and_uplink [of example_net "''hub.local''" 0 "[''bye'']"] a b
    by simp
qed

subsection \<open>KILL\<close>

lemma hd_split_once:
  "hd (split_once sep s) = takeWhile (\<lambda>c. c \<noteq> sep) s"
proof (cases "sep \<in> set s")
  case True
  then show ?thesis by (simp add: split_once_def)
next
  case False
  then have "takeWhile (\<lambda>c. c \<noteq> sep) s = s" by (auto simp: takeWhile_eq_all_conv)
  with False show ?thesis by (simp only: split_once_def if_False list.sel)
qed

text \<open>The result of the handler is the same for every killing entity.\<close>

lemma handle_kill_text_ignores_killer:
  "snd (handle_kill st source args) = snd (handle_kill st source' args)"
  by (simp add: handle_kill_def Let_def split: list.splits)

text \<open>A reason whose first token has no \<open>!\<close> is passed on unchanged.\<close>

lemma handle_kill_passthrough:
  assumes "CHR ''!'' \<notin> set (takeWhile (\<lambda>c. c \<noteq> CHR '' '') reason)"
  shows "map_sum id kill_text (snd (handle_kill st source [target, reason])) = Inr reason"
  using assms by (simp add: handle_kill_def Let_def hd_split_once)

text \<open>
  C5. The claim asks for the extracted message prefixed with the display name of the
  killer. For the KILL of 9PZAAAAAA by 70MAAAAAA (display name GL) with the reason
  "hidden-1C620195!GL (test)", the text of the hook is "test": the display name is
  computed and not used.
\<close>

theorem handle_kill_drops_killer:
  "get_friendly_name example_net ''70MAAAAAA'' = Some ''GL''
   \<and> snd (handle_kill example_net ''70MAAAAAA'' [''9PZAAAAAA'', ''hidden-1C620195!GL (test)''])
       = Inr \<lparr>kill_target = ''9PZAAAAAA'', kill_text = ''test'',
               kill_userdata = map_of (users example_net) ''9PZAAAAAA''\<rparr>"
  by code_simp

subsection \<open>Outbound command builders\<close>

text \<open>The builders that validate: an actor that is not internally owned gets LookupError,
  and the network (with its sent lines) is unchanged.\<close>

lemma validated_builders_reject:
  assumes "\<not> is_internal_client st actor"
  shows "invite expand st actor target channel = (st, Inl LookupError)"
    and "part expand st actor channel reason = (st, Inl LookupError)"
    and "quit expand st actor txt = (st, Inl LookupError)"
    and "message expand st actor target txt = (st, Inl LookupError)"
    and "\<not> is_internal_server st actor \<Longrightarrow>
           kick expand st actor channel target reason = (st, Inl LookupError)"
    and "\<not> is_internal_server st actor \<Longrightarrow>
           notice expand st actor target txt = (st, Inl LookupError)"
    and "\<not> is_internal_server st actor \<Longrightarrow>
           topic expand st actor target txt = (st, Inl LookupError)"
  using assms
  by (simp_all add: invite_def part_def quit_def message_def kick_def notice_def topic_def)

text \<open>
  C6. The claim asks every builder to refuse an actor that is not internally owned.
  ZZZ is neither an internal client nor an internal server of the example network, yet
  \<^verbatim>\<open>squit\<close> by ZZZ returns normally, sends the SQUIT line and removes the servers 9PZ
  and 8XY with their users; \<^verbatim>\<open>numeric\<close> by ZZZ sends its line too.
\<close>

theorem squit_sends_unvalidated:
  "\<not> is_internal_client example_net ''ZZZ'' \<and> \<not> is_internal_server example_net ''ZZZ''
   \<and> (case squit 10 (\<lambda>x. x) example_net ''ZZZ'' ''9PZ'' ''bye'' of
        (st, r) \<Rightarrow> r = Inr () \<and> sent st = ['':ZZZ SQUIT 9PZ :bye'']
                  \<and> map fst (servers st) = [''0AL'', ''70M'']
                  \<and> map fst (users st) = [''0ALAAAAAA'', ''70MAAAAAA''])
   \<and> numeric (\<lambda>x. x) example_net ''ZZZ'' ''401'' ''70MAAAAAA'' ''x :No such nick''
       = (example_net\<lparr>sent := ['':ZZZ 401 70MAAAAAA x :No such nick'']\<rparr>, Inr ())"
  by code_simp

subsection \<open>The remote command\<close>

text \<open>
  C9, as the claim states it, fails when a remote command is already in flight: the
  caller gets the nesting error and the flag is still set on return.
\<close>

theorem remote_self_target_while_in_use:
  "remote (\<lambda>ps. True) (\<lambda>w s n u c. (w, None)) (example_world\<lparr>REMOTE_IN_USE := True\<rparr>) example_irc
      ''70MAAAAAA'' \<lparr>ra_service = ''pylink'', ra_network = ''net1'', ra_command = [''echo'', ''hi'']\<rparr>
   = (example_world\<lparr>REMOTE_IN_USE := True,
        errors := [(''net1'', ''The 'remote' command can not be nested.'')]\<rparr>, None)"
  by (simp add: remote_def irc_error_def example_world_def example_irc_def repr_def)

text \<open>
  C9, amended. For an invocation that names a command, passes the permission check and
  finds no remote command in flight: when the target network's name is the origin
  network's name, the command returns normally, the only change of the world is the
  error "Cannot remote-send a command to the local network; use a normal command!"
  reported on the origin network (whatever the service's \<^verbatim>\<open>call_cmd\<close> would do), and
  the flag is clear afterwards.
\<close>

theorem remote_self_target_rejected:
  assumes "ra_command args \<noteq> []"
    and "check_permissions (remote_permissions args)"
    and "\<not> REMOTE_IN_USE w"
    and "ra_network args = irc_name irc"
  shows "remote check_permissions call_cmd w irc source args
         = (w\<lparr>errors := errors w @ [(irc_name irc,
                ''Cannot remote-send a command to the local network; use a normal command!'')]\<rparr>,
            None)
         \<and> \<not> REMOTE_IN_USE (fst (remote check_permissions call_cmd w irc source args))"
  using assms by (simp add: remote_def irc_error_def Let_def)

theorem remote_self_target_rejected_witness:
  "remote (\<lambda>ps. True) (\<lambda>w s n u c. (w\<lparr>networkobjects := []\<rparr>, Some KeyError))
      example_world example_irc ''70MAAAAAA''
      \<lparr>ra_service = ''pylink'', ra_network = ''net1'', ra_command = [''echo'', ''hi'']\<rparr>
   = (example_world\<lparr>errors := [(''net1'',
          ''Cannot remote-send a command to the local network; use a normal command!'')]\<rparr>, None)"
proof -
  have a: "ra_command \<lparr>ra_service = ''pylink'', ra_network = ''net1'',
      ra_command = [''echo'', ''hi'']\<rparr> \<noteq> []"
    by simp
  have c: "\<not> REMOTE_IN_USE example_world" by (simp add: example_world_def)
  have d: "ra_network \<lparr>ra_service = ''pylink'', ra_network = ''net1'',
      ra_command = [''echo'', ''hi'']\<rparr> = irc_name example_irc"
    by (simp add: example_irc_def)
  have e: "errors example_world = []" by (simp add: example_world_def)
  show ?thesis
    using remote_self_target_rejected [where check_permissions = "\<lambda>ps. True", OF a _ c d,
        of "\<lambda>w s n u c. (w\<lparr>networkobjects := []\<rparr>, Some KeyError)" "''70MAAAAAA''"] e
    by (simp add: example_irc_def)
qed

subsection \<open>Membership invariant\<close>

lemma members_update_channel:
  "members (update_channel st name f) c =
     (if c = name
      then set (chan_users (f (case map_of (channels st) name of Some ch \<Rightarrow> ch | None \<Rightarrow> new_channel)))
      else members st c)"
  by (simp add: members_def update_channel_def update_conv')

lemma members_remove_user:
  "members (update_channel st name (remove_user u)) c =
     (if c = name then members st name - {u} else members st c)"
  unfolding members_update_channel
  by (auto simp: remove_user_def members_def new_channel_def split: option.splits)

lemma users_update_channel [simp]: "users (update_channel st name f) = users st"
  by (simp add: update_channel_def)

lemma members_part_step:
  "members (fst (part_step source channel (st, chans))) c =
     (if c = channel then members st channel - {source} else members st c)"
proof -
  have "members (fst (part_step source channel (st, chans))) c
      = members (update_channel st channel (remove_user source)) c"
    by (simp add: part_step_def Let_def members_def split: option.splits)
  then show ?thesis by (simp add: members_remove_user)
qed

lemma channels_of_part_step:
  "channels_of (fst (part_step source channel (st, chans))) u =
     (if u = source then channels_of st source - {channel} else channels_of st u)"
  by (auto simp: part_step_def Let_def channels_of_def update_conv' split: option.splits)

lemma consistent_part_step:
  assumes "consistent st"
  shows "consistent (fst (part_step source channel (st, chans)))"
  using assms unfolding consistent_def
  by (auto simp: members_part_step channels_of_part_step)

lemma consistent_fold_part_step:
  "consistent (fst acc) \<Longrightarrow> consistent (fst (fold (part_step source) cs acc))"
proof (induction cs arbitrary: acc)
  case Nil
  then show ?case by simp
next
  case (Cons c cs)
  obtain st chans where acc: "acc = (st, chans)" by (cases acc)
  have "consistent (fst (part_step source c acc))"
    using Cons.prems consistent_part_step [of st source c chans] by (simp add: acc)
  then show ?case using Cons.IH by simp
qed

lemma fst_handle_part:
  "fst (handle_part st source (a0 # rest))
     = fst (fold (part_step source) (split_on CHR '','' a0) (st, split_on CHR '','' a0))"
  by (simp add: handle_part_def Let_def split: prod.splits)

lemma consistent_handle_part:
  "consistent st \<Longrightarrow> consistent (fst (handle_part st source args))"
proof (cases args)
  case Nil
  assume "consistent st"
  then show ?thesis by (simp add: handle_part_def Nil)
next
  case (Cons a0 rest)
  assume c: "consistent st"
  have "consistent (fst (fold (part_step source) (split_on CHR '','' a0) (st, split_on CHR '','' a0)))"
    using consistent_fold_part_step [of "(st, split_on CHR '','' a0)"] c by simp
  then show ?thesis
    by (simp add: Cons fst_handle_part)
qed

lemma consistent_handle_kick:
  "consistent st \<Longrightarrow> consistent (fst (handle_kick st source args))"
  by (auto simp: handle_kick_def Let_def consistent_handle_part split: list.splits)

lemma map_of_filter_key:
  "map_of (filter (\<lambda>(k, v). P k) xs) k = (if P k then map_of xs k else None)"
  by (induction xs) auto

lemma map_of_drop_empty:
  "map_of (drop_empty chs) c = (if occupied chs c then map_of chs c else None)"
  by (simp add: drop_empty_def map_of_filter_key)

lemma members_remove_client:
  "members (remove_client st uid) c = members st c - {uid}"
proof (cases "map_of (channels st) c")
  case None
  then show ?thesis
    by (simp add: members_def remove_client_def map_of_drop_empty occupied_def map_of_map)
next
  case (Some ch)
  have "y = uid" if "removeAll uid xs = []" and "y \<in> set xs" for y and xs :: "string list"
    using that by (induction xs) (auto split: if_splits)
  then show ?thesis
    using Some
    by (auto simp: members_def remove_client_def map_of_drop_empty occupied_def map_of_map
        remove_user_def)
qed

lemma channels_of_remove_client:
  "channels_of (remove_client st uid) u = (if u = uid then {} else channels_of st u)"
  by (simp add: channels_of_def remove_client_def delete_conv')

lemma consistent_remove_client:
  "consistent st \<Longrightarrow> consistent (remove_client st uid)"
  unfolding consistent_def
  by (auto simp: members_remove_client channels_of_remove_client)

lemma consistent_handle_quit:
  "consistent st \<Longrightarrow> consistent (fst (handle_quit st source args))"
  by (simp add: handle_quit_def Let_def consistent_remove_client split: list.splits)

lemma consistent_squit_users:
  "consistent st \<Longrightarrow> consistent (fst (squit_users old us (st, au, an)))"
proof (induction us arbitrary: st au an)
  case Nil
  then show ?case by simp
next
  case (Cons u us)
  then show ?case
    by (cases "map_of (users st) u") (simp_all add: consistent_remove_client)
qed

lemma consistent_squit_servers:
  assumes rec: "\<And>s a. consistent s \<Longrightarrow> consistent (fst (rec s a))"
  shows "consistent st \<Longrightarrow> consistent (fst (squit_servers rec x srvs (st, au, asv)))"
proof (induction srvs arbitrary: st au asv)
  case Nil
  then show ?case by simp
next
  case (Cons p srvs)
  obtain sid data where p: "p = (sid, data)" by (cases p)
  show ?case
  proof (cases "srv_uplink data = Some x")
    case False
    then show ?thesis using Cons by (simp add: p)
  next
    case True
    let ?r = "rec st [sid, ''0'', ''PyLink: Automatically splitting leaf servers of '' @ sid]"
    have c: "consistent (fst ?r)" using rec Cons.prems by simp
    obtain st' res where r: "?r = (st', res)" by (cases ?r)
    show ?thesis
    proof (cases res)
      case (Inl e)
      then show ?thesis using c r True by (simp add: p)
    next
      case (Inr v)
      show ?thesis
      proof (cases v)
        case None
        then show ?thesis using c r True Inr by (simp add: p)
      next
        case (Some pl)
        have "consistent st'" using c r by simp
        then show ?thesis using Cons.IH r True Inr Some by (simp add: p)
      qed
    qed
  qed
qed

lemma consistent_servers_update [simp]:
  "consistent (st\<lparr>servers := s\<rparr>) = consistent st"
  by (simp add: consistent_def members_def channels_of_def)

lemma consistent_handle_squit:
  "consistent st \<Longrightarrow> consistent (fst (handle_squit depth st args))"
proof (induction depth arbitrary: st args)
  case 0
  then show ?case by simp
next
  case (Suc depth)
  show ?case
  proof (cases args)
    case Nil
    then show ?thesis using Suc.prems by simp
  next
    case (Cons a0 rest)
    let ?x = "get_SID st a0"
    let ?r1 = "squit_servers (handle_squit depth) ?x (servers st) (st, [], [?x])"
    have c1: "consistent (fst ?r1)"
      using consistent_squit_servers [of "handle_squit depth" st ?x "servers st" "[]" "[?x]"]
        Suc.IH Suc.prems by blast
    obtain st1 res1 where r1: "?r1 = (st1, res1)" by (cases ?r1)
    have cst1: "consistent st1" using c1 r1 by simp
    show ?thesis
    proof (cases res1)
      case (Inl e)
      then show ?thesis using Suc.prems cst1 r1 by (simp add: Cons Let_def)
    next
      case (Inr pr)
      obtain users1 asv where pr: "pr = (users1, asv)" by (cases pr)
      show ?thesis
      proof (cases "map_of (servers st1) ?x")
        case None
        then show ?thesis using Suc.prems cst1 r1 Inr pr by (simp add: Cons Let_def)
      next
        case (Some srv)
        let ?r2 = "squit_users (channels st) (remdups (srv_users srv)) (st1, users1, [])"
        have c2: "consistent (fst ?r2)" using consistent_squit_users cst1 by blast
        obtain st2 res2 where r2: "?r2 = (st2, res2)" by (cases ?r2)
        have cst2: "consistent st2" using c2 r2 by simp
        show ?thesis
          using Suc.prems cst1 cst2 r1 r2 Inr pr Some
          by (auto simp: Cons Let_def split: sum.splits option.splits prod.splits)
      qed
    qed
  qed
qed

lemma consistent_handle_event:
  "consistent st \<Longrightarrow> consistent (handle_event depth st ev)"
  by (cases ev)
    (simp_all add: consistent_handle_part consistent_handle_kick consistent_handle_quit
      consistent_handle_squit)

text \<open>
  C1. From a network whose membership relation is consistent (a user is in a channel's
  member set exactly when the channel's name is in the user's channel set), every
  sequence of inbound PART, KICK, QUIT and SQUIT handler calls, whatever their arguments
  and whether they return or raise, leaves it consistent.
\<close>

theorem membership_consistent_after_events:
  assumes "consistent st"
  shows "consistent (handle_events depth st evs)"
  using assms unfolding handle_events_def
  by (induction evs arbitrary: st) (simp_all add: consistent_handle_event)

lemma consistent_example_net: "consistent example_net"
  unfolding consistent_def members_def channels_of_def example_net_def
  by (auto split: if_splits)

theorem membership_consistent_after_events_witness:
  "consistent example_net
   \<and> consistent (handle_events 10 example_net
        [PART ''9PZAAAAAA'' [''#test,#nowhere'', ''bye''], KICK ''70MAAAAAA'' [''#leaf'', ''far''],
         QUIT ''70MAAAAAA'' [''Quit: gone''], SQUIT ''70M'' [''9PZ'', ''split'']])"
  using membership_consistent_after_events [OF consistent_example_net] consistent_example_net
  by simp

subsection \<open>KICK of a non-member\<close>

lemma update_absent: "k \<notin> fst ` set al \<Longrightarrow> AList.update k v al = al @ [(k, v)]"
  by (induction al) auto

lemma map_of_None_keys: "map_of al k = None \<longleftrightarrow> k \<notin> fst ` set al"
  by (simp add: map_of_eq_None_iff)

text \<open>One round of the part loop for a channel the source is not in.\<close>

lemma part_step_nonmember:
  assumes "consistent st" and "source \<notin> members st channel"
  shows "fst (part_step source channel (st, chans))
       = (if has_key (channels st) channel then st
          else st\<lparr>channels := channels st @ [(channel, new_channel)]\<rparr>)"
proof -
  have nochan: "channel \<notin> channels_of st source"
    using assms unfolding consistent_def by blast
  have users_same:
    "(case map_of (users s) source of
         None \<Rightarrow> s
       | Some u \<Rightarrow> s\<lparr>users := AList.update source
            (u\<lparr>user_channels := removeAll channel (user_channels u)\<rparr>) (users s)\<rparr>) = s"
    if eq: "users s = users st" for s :: network
  proof (cases "map_of (users st) source")
    case None
    then show ?thesis by (simp add: eq)
  next
    case (Some u)
    then have "channel \<notin> set (user_channels u)"
      using nochan by (simp add: channels_of_def)
    then have "u\<lparr>user_channels := removeAll channel (user_channels u)\<rparr> = u" by simp
    then show ?thesis using Some by (simp add: eq update_triv)
  qed
  have chan: "update_channel st channel (remove_user source)
       = (if has_key (channels st) channel then st
          else st\<lparr>channels := channels st @ [(channel, new_channel)]\<rparr>)"
  proof (cases "map_of (channels st) channel")
    case None
    then have "channel \<notin> fst ` set (channels st)" by (simp add: map_of_None_keys)
    then show ?thesis
      using None
      by (simp add: update_channel_def has_key_def update_absent remove_user_def new_channel_def)
  next
    case (Some ch)
    then have k: "has_key (channels st) channel"
      unfolding has_key_def by (metis map_of_None_keys option.distinct(1))
    have "source \<notin> set (chan_users ch)" using assms(2) Some by (simp add: members_def)
    then have "remove_user source ch = ch" by (simp add: remove_user_def)
    then show ?thesis using Some k by (simp add: update_channel_def update_triv)
  qed
  have "fst (part_step source channel (st, chans))
      = (let st1 = update_channel st channel (remove_user source) in
         case map_of (users st1) source of
           None \<Rightarrow> st1
         | Some u \<Rightarrow> st1\<lparr>users := AList.update source
              (u\<lparr>user_channels := removeAll channel (user_channels u)\<rparr>) (users st1)\<rparr>)"
    by (simp add: part_step_def Let_def)
  also have "\<dots> = update_channel st channel (remove_user source)"
    using users_same [of "update_channel st channel (remove_user source)"]
    by (simp add: Let_def)
  finally show ?thesis using chan by simp
qed


lemma same_membership_part_step:
  assumes "consistent st" and "source \<notin> members st channel"
  shows "same_membership st (fst (part_step source channel (st, chans)))"
proof -
  have "members (st\<lparr>channels := channels st @ [(channel, new_channel)]\<rparr>) = members st"
    if "\<not> has_key (channels st) channel"
  proof
    fix c
    have "map_of (channels st) channel = None"
      using that by (simp add: has_key_def map_of_None_keys)
    then show "members (st\<lparr>channels := channels st @ [(channel, new_channel)]\<rparr>) c = members st c"
      by (auto simp: members_def new_channel_def map_add_def split: option.splits)
  qed
  then show ?thesis
    using part_step_nonmember [OF assms] by (auto simp: same_membership_def)
qed

lemma same_membership_fold_part_step:
  assumes "consistent (fst acc)" and "\<forall>c \<in> set cs. source \<notin> members (fst acc) c"
  shows "same_membership (fst acc) (fst (fold (part_step source) cs acc))"
  using assms
proof (induction cs arbitrary: acc)
  case Nil
  then show ?case by (simp add: same_membership_def)
next
  case (Cons c cs)
  obtain st chans where acc: "acc = (st, chans)" by (cases acc)
  let ?acc' = "part_step source c acc"
  have s1: "same_membership st (fst ?acc')"
    using same_membership_part_step [of st source c chans] Cons.prems by (simp add: acc)
  have c1: "consistent (fst ?acc')"
    using consistent_part_step [of st source c chans] Cons.prems by (simp add: acc)
  have m1: "\<forall>c' \<in> set cs. source \<notin> members (fst ?acc') c'"
    using s1 Cons.prems by (simp add: same_membership_def acc)
  have "same_membership (fst ?acc') (fst (fold (part_step source) cs ?acc'))"
    using Cons.IH [OF c1 m1] .
  then show ?case using s1 by (simp add: same_membership_def acc)
qed

text \<open>
  C7, as the claim states it, fails on its last part: the hook of a KICK always carries
  the kicked target. 8XYAAAAAA (nick far) is not in \#test, and the hook of its KICK from
  \#test names it as target.
\<close>

theorem handle_kick_keeps_target_in_hook:
  "''8XYAAAAAA'' \<notin> members example_net ''#test''
   \<and> handle_kick example_net ''70MAAAAAA'' [''#test'', ''far'']
       = (example_net, Inr \<lparr>kick_channel = ''#test'', kick_target = ''8XYAAAAAA'', kick_text = []\<rparr>)"
  by code_simp

text \<open>
  C7, amended. In a membership-consistent network, an inbound KICK whose resolved target
  is in none of the channels its first argument names raises nothing, leaves the user
  table, the server table, the sent lines and every channel's member set as they were,
  and emits the hook with the channel, the resolved target and the reason received
  (empty when absent).
\<close>

theorem handle_kick_nonmember:
  assumes "consistent st"
    and "\<forall>c \<in> set (split_on CHR '','' channel). get_UID st a1 \<notin> members st c"
  shows "snd (handle_kick st source (channel # a1 # rest))
           = Inr \<lparr>kick_channel = channel, kick_target = get_UID st a1,
                   kick_text = (case rest of [] \<Rightarrow> [] | r # _ \<Rightarrow> r)\<rparr>
         \<and> same_membership st (fst (handle_kick st source (channel # a1 # rest)))"
proof -
  have "same_membership st
      (fst (fold (part_step (get_UID st a1)) (split_on CHR '','' channel)
             (st, split_on CHR '','' channel)))"
    using same_membership_fold_part_step [of "(st, split_on CHR '','' channel)"] assms by simp
  then show ?thesis
    by (simp add: handle_kick_def Let_def fst_handle_part)
qed

lemma split_on_no_sep: "sep \<notin> set s \<Longrightarrow> split_on sep s = [s]"
  by (induction s) auto

theorem handle_kick_nonmember_witness:
  "snd (handle_kick example_net ''70MAAAAAA'' [''#test'', ''far''])
     = Inr \<lparr>kick_channel = ''#test'', kick_target = ''8XYAAAAAA'', kick_text = []\<rparr>
   \<and> same_membership example_net (fst (handle_kick example_net ''70MAAAAAA'' [''#test'', ''far'']))"
proof -
  have u: "get_UID example_net ''far'' = ''8XYAAAAAA''" by code_simp
  have s: "split_on CHR '','' ''#test'' = [''#test'']" by code_simp
  have m: "''8XYAAAAAA'' \<notin> members example_net ''#test''" by code_simp
  have "\<forall>c \<in> set (split_on CHR '','' ''#test''). get_UID example_net ''far'' \<notin> members example_net c"
    using u s m by simp
  from handle_kick_nonmember [OF consistent_example_net this, of "''70MAAAAAA''" "[]"]
  show ?thesis by (simp add: u)
qed

subsection \<open>Topology cascade\<close>

text \<open>Heights, cycles and the list of a subtree.\<close>

lemma single_valued_uplink_rel: "single_valued (uplink_rel srvs)"
  by (auto simp: single_valued_def uplink_rel_def)

lemma children_iff:
  assumes "distinct (map fst srvs)"
  shows "c \<in> set (children srvs x) \<longleftrightarrow> (c, x) \<in> uplink_rel srvs"
proof
  assume "c \<in> set (children srvs x)"
  then obtain d where "(c, d) \<in> set srvs" "srv_uplink d = Some x"
    by (auto simp: children_def)
  then show "(c, x) \<in> uplink_rel srvs"
    using assms by (auto simp: uplink_rel_def)
next
  assume "(c, x) \<in> uplink_rel srvs"
  then obtain d where "map_of srvs c = Some d" "srv_uplink d = Some x"
    by (auto simp: uplink_rel_def)
  then show "c \<in> set (children srvs x)"
    by (force simp: children_def dest: map_of_SomeD)
qed

lemma height_le_Suc: "height_le n srvs x \<Longrightarrow> height_le (Suc n) srvs x"
proof (induction n arbitrary: x)
  case 0
  then show ?case by simp
next
  case (Suc n)
  have "list_all (height_le n srvs) (children srvs x)" using Suc.prems by simp
  then have "list_all (height_le (Suc n) srvs) (children srvs x)"
    using Suc.IH by (simp add: list_all_iff del: height_le.simps)
  then show ?case by (subst height_le.simps(2))
qed

lemma height_le_child:
  assumes "distinct (map fst srvs)" and "height_le n srvs y" and "(k, y) \<in> uplink_rel srvs"
  shows "0 < n \<and> height_le (n - 1) srvs k"
proof -
  have k: "k \<in> set (children srvs y)" using assms(1,3) by (simp add: children_iff)
  show ?thesis
  proof (cases n)
    case 0
    then show ?thesis using assms(2) k by simp
  next
    case (Suc m)
    then show ?thesis using assms(2) k by (simp add: list_all_iff)
  qed
qed

lemma height_le_below:
  assumes "distinct (map fst srvs)"
  shows "(k, y) \<in> rtrancl (uplink_rel srvs) \<Longrightarrow> height_le n srvs y \<Longrightarrow> height_le n srvs k"
proof (induction rule: converse_rtrancl_induct)
  case base
  then show ?case .
next
  case (step k z)
  then have hz: "height_le n srvs z" by simp
  from height_le_child [OF assms hz step.hyps(1)]
  have "0 < n" "height_le (n - 1) srvs k" by simp_all
  then show ?case using height_le_Suc [of "n - 1" srvs k] by simp
qed

lemma height_le_strict:
  assumes "distinct (map fst srvs)" and "height_le n srvs y"
    and "(k, y) \<in> trancl (uplink_rel srvs)"
  shows "0 < n \<and> height_le (n - 1) srvs k"
proof -
  from assms(3) obtain c where kc: "(k, c) \<in> rtrancl (uplink_rel srvs)"
    and cy: "(c, y) \<in> uplink_rel srvs"
    by (auto elim: tranclE intro: trancl_into_rtrancl)
  from height_le_child [OF assms(1,2) cy] have n: "0 < n" and hc: "height_le (n - 1) srvs c"
    by simp_all
  show ?thesis using n height_le_below [OF assms(1) kc hc] by simp
qed

lemma height_le_acyclic:
  assumes "distinct (map fst srvs)"
  shows "height_le n srvs x \<Longrightarrow> (x, x) \<notin> trancl (uplink_rel srvs)"
proof (induction n)
  case 0
  show ?case
  proof
    assume "(x, x) \<in> trancl (uplink_rel srvs)"
    from height_le_strict [OF assms 0 this] show False by simp
  qed
next
  case (Suc n)
  show ?case
  proof
    assume c: "(x, x) \<in> trancl (uplink_rel srvs)"
    from height_le_strict [OF assms Suc.prems c] have "height_le n srvs x" by simp
    with Suc.IH c show False by simp
  qed
qed

lemma subtree_subset_below:
  assumes "distinct (map fst srvs)"
  shows "set (subtree n srvs x) \<subseteq> below srvs x"
proof (induction n arbitrary: x)
  case 0
  show ?case by (simp add: below_def)
next
  case (Suc n)
  have "set (subtree n srvs c) \<subseteq> below srvs x" if "c \<in> set (children srvs x)" for c
  proof -
    have cx: "(c, x) \<in> uplink_rel srvs" using that assms by (simp add: children_iff)
    have "below srvs c \<subseteq> below srvs x"
      using cx by (auto simp: below_def intro: rtrancl_into_rtrancl)
    then show ?thesis using Suc.IH [of c] by blast
  qed
  then show ?case by (auto simp: below_def)
qed

lemma below_subset_subtree:
  assumes "distinct (map fst srvs)"
  shows "height_le n srvs x \<Longrightarrow> k \<in> below srvs x \<Longrightarrow> k \<in> set (subtree n srvs x)"
proof (induction n arbitrary: x)
  case 0
  from 0(2) have "(k, x) \<in> rtrancl (uplink_rel srvs)" by (simp add: below_def)
  then show ?case
  proof (cases rule: rtranclE)
    case base
    then show ?thesis by simp
  next
    case (step y)
    from height_le_child [OF assms 0(1) step(2)] show ?thesis by simp
  qed
next
  case (Suc n)
  from Suc.prems(2) have "(k, x) \<in> rtrancl (uplink_rel srvs)" by (simp add: below_def)
  then show ?case
  proof (cases rule: rtranclE)
    case base
    then show ?thesis by simp
  next
    case (step y)
    have y: "y \<in> set (children srvs x)" using step(2) assms by (simp add: children_iff)
    from height_le_child [OF assms Suc.prems(1) step(2)] have "height_le n srvs y" by simp
    moreover have "k \<in> below srvs y" using step(1) by (simp add: below_def)
    ultimately have "k \<in> set (subtree n srvs y)" using Suc.IH by blast
    then show ?thesis using y by auto
  qed
qed

lemma set_subtree:
  assumes "distinct (map fst srvs)" and "height_le n srvs x"
  shows "set (subtree n srvs x) = below srvs x"
  using subtree_subset_below [OF assms(1)] below_subset_subtree [OF assms] by blast

text \<open>What splitting off does to the tables.\<close>

lemma net_fields_split_off [simp]:
  "net_sid (split_off D U st) = net_sid st"
  "net_uplink (split_off D U st) = net_uplink st"
  "net_name (split_off D U st) = net_name st"
  "sent (split_off D U st) = sent st"
  by (simp_all add: split_off_def)

lemma map_of_map_filter:
  "map_of (map (\<lambda>(k, d). (k, f d)) (filter (\<lambda>(k, d). k \<notin> D) xs)) k
     = (if k \<in> D then None else map_option f (map_of xs k))"
  by (induction xs) auto

lemma map_of_servers_split_off:
  "map_of (servers (split_off D U st)) k
     = (if k \<in> D then None
        else map_option (\<lambda>d. d\<lparr>srv_users := filter (\<lambda>u. u \<notin> U) (srv_users d)\<rparr>)
               (map_of (servers st) k))"
  by (simp add: split_off_def map_of_map_filter)

lemma uplink_rel_split_off:
  "uplink_rel (servers (split_off D U st)) = {(k, u). (k, u) \<in> uplink_rel (servers st) \<and> k \<notin> D}"
  by (auto simp: uplink_rel_def map_of_servers_split_off split: if_splits)

lemma keys_split_off:
  "map fst (servers (split_off D U st)) = filter (\<lambda>k. k \<notin> D) (map fst (servers st))"
  by (induction "servers st" arbitrary: st) (auto simp: split_off_def filter_map comp_def split_def)

lemma distinct_split_off:
  "distinct (map fst (servers st)) \<Longrightarrow> distinct (map fst (servers (split_off D U st)))"
  by (simp add: keys_split_off)

lemma has_key_split_off:
  "has_key (servers (split_off D U st)) k \<longleftrightarrow> has_key (servers st) k \<and> k \<notin> D"
proof -
  have "fst ` set (servers (split_off D U st)) = set (map fst (servers (split_off D U st)))"
    by simp
  also have "\<dots> = {k \<in> fst ` set (servers st). k \<notin> D}"
    unfolding keys_split_off by auto
  finally show ?thesis by (auto simp: has_key_def)
qed

lemma children_split_off:
  "children (servers (split_off D U st)) y = filter (\<lambda>k. k \<notin> D) (children (servers st) y)"
proof -
  have "children (map (\<lambda>(k, d). (k, d\<lparr>srv_users := filter (\<lambda>u. u \<notin> U) (srv_users d)\<rparr>))
                    (filter (\<lambda>(k, d). k \<notin> D) xs)) y
        = filter (\<lambda>k. k \<notin> D) (children xs y)" for xs
    by (induction xs) (auto simp: children_def)
  then show ?thesis by (simp add: split_off_def)
qed

lemma height_le_split_off:
  "height_le n (servers st) y \<Longrightarrow> height_le n (servers (split_off D U st)) y"
proof (induction n arbitrary: y)
  case 0
  then show ?case by (simp add: children_split_off)
next
  case (Suc n)
  have "list_all (height_le n (servers st)) (children (servers st) y)"
    using Suc.prems by simp
  then have "list_all (height_le n (servers (split_off D U st)))
      (filter (\<lambda>k. k \<notin> D) (children (servers st) y))"
    using Suc.IH by (simp add: list_all_iff)
  then show ?case by (simp add: children_split_off)
qed

lemma below_split_off_subset:
  "below (servers (split_off D U st)) y \<subseteq> below (servers st) y"
proof -
  have "uplink_rel (servers (split_off D U st)) \<subseteq> uplink_rel (servers st)"
    by (auto simp: uplink_rel_split_off)
  then show ?thesis unfolding below_def using rtrancl_mono by blast
qed

lemma below_closed:
  "(k, k') \<in> uplink_rel srvs \<Longrightarrow> k' \<in> below srvs y \<Longrightarrow> k \<in> below srvs y"
  by (auto simp: below_def intro: converse_rtrancl_into_rtrancl)

lemma below_split_off:
  assumes "below (servers st) y \<inter> D = {}"
  shows "below (servers (split_off D U st)) y = below (servers st) y"
proof
  show "below (servers (split_off D U st)) y \<subseteq> below (servers st) y"
    by (rule below_split_off_subset)
next
  show "below (servers st) y \<subseteq> below (servers (split_off D U st)) y"
  proof
    fix k assume "k \<in> below (servers st) y"
    then have "(k, y) \<in> rtrancl (uplink_rel (servers st))" by (simp add: below_def)
    then have "(k, y) \<in> rtrancl (uplink_rel (servers (split_off D U st)))"
    proof (induction rule: converse_rtrancl_induct)
      case base
      show ?case by simp
    next
      case (step k z)
      have "k \<in> below (servers st) y"
        using step.hyps by (auto simp: below_def intro: converse_rtrancl_into_rtrancl)
      then have "k \<notin> D" using assms by blast
      then have "(k, z) \<in> uplink_rel (servers (split_off D U st))"
        using step.hyps(1) by (simp add: uplink_rel_split_off)
      then show ?case using step.IH by (rule converse_rtrancl_into_rtrancl)
    qed
    then show "k \<in> below (servers (split_off D U st)) y" by (simp add: below_def)
  qed
qed

lemma homed_set_split_off:
  "homed_set (servers (split_off D U st)) B = homed_set (servers st) (B - D) - U"
  by (auto simp: homed_set_def map_of_servers_split_off split: if_splits) blast+

lemma user_keys_split_off:
  "fst ` set (users (split_off D U st)) = fst ` set (users st) - U"
  by (force simp: split_off_def)

lemma remove_client_split_off: "remove_client st u = split_off {} {u} st"
proof -
  have a: "removeAll u xs = filter (\<lambda>v. v \<noteq> u) xs" for xs :: "string list"
    by (induction xs) auto
  have b: "AList.delete u xs = filter (\<lambda>(v, d). v \<noteq> u) xs" for xs :: "(string \<times> user) list"
    by (induction xs) auto
  show ?thesis
    by (simp add: remove_client_def split_off_def purge_channels_def remove_user_def a b)
qed

lemma filter_key_purge_channels:
  "filter (\<lambda>(k, v). P k) (purge_channels U xs) = purge_channels U (filter (\<lambda>(k, v). P k) xs)"
  by (induction xs) (auto simp: purge_channels_def)

lemma purge_channels_twice:
  "purge_channels U' (purge_channels U xs) = purge_channels (U \<union> U') xs"
  by (induction xs) (auto simp: purge_channels_def conj_commute)

lemma occupied_purge_channels:
  "occupied (purge_channels U xs) k
     = (case map_of xs k of None \<Rightarrow> False
        | Some c \<Rightarrow> filter (\<lambda>u. u \<notin> U) (chan_users c) \<noteq> [])"
  by (simp add: occupied_def purge_channels_def map_of_map split: option.splits)

lemma occupied_filter_key:
  "occupied (filter (\<lambda>(k, v). P k) xs) k = (P k \<and> occupied xs k)"
  by (simp add: occupied_def map_of_filter_key)

lemma drop_empty_purge_twice:
  "drop_empty (purge_channels U' (drop_empty (purge_channels U chs)))
     = drop_empty (purge_channels (U \<union> U') chs)"
proof -
  define O1 where "O1 = occupied (purge_channels U chs)"
  define O12 where "O12 = occupied (purge_channels (U \<union> U') chs)"
  define Z where "Z = purge_channels (U \<union> U') (filter (\<lambda>(k, v). O1 k) chs)"
  have imp: "O12 k \<Longrightarrow> O1 k" for k
    by (auto simp: O1_def O12_def occupied_purge_channels filter_empty_conv split: option.splits)
  have inner: "purge_channels U' (drop_empty (purge_channels U chs)) = Z"
    unfolding Z_def drop_empty_def O1_def [symmetric]
    by (simp only: filter_key_purge_channels purge_channels_twice)
  have occZ: "occupied Z k = O12 k" for k
  proof -
    have "occupied Z k = (O1 k \<and> O12 k)"
      unfolding Z_def O12_def
      by (simp add: occupied_purge_channels map_of_filter_key)
    then show ?thesis using imp by blast
  qed
  have "drop_empty Z = filter (\<lambda>(k, v). O12 k) Z"
    unfolding drop_empty_def by (simp add: occZ)
  also have "\<dots> = purge_channels (U \<union> U')
      (filter (\<lambda>(k, v). O12 k) (filter (\<lambda>(k, v). O1 k) chs))"
    unfolding Z_def by (simp only: filter_key_purge_channels)
  also have "filter (\<lambda>(k, v). O12 k) (filter (\<lambda>(k, v). O1 k) chs) = filter (\<lambda>(k, v). O12 k) chs"
    using imp by (induction chs) auto
  also have "purge_channels (U \<union> U') (filter (\<lambda>(k, v). O12 k) chs)
      = drop_empty (purge_channels (U \<union> U') chs)"
    unfolding drop_empty_def O12_def [symmetric] by (simp only: filter_key_purge_channels)
  finally show ?thesis using inner by simp
qed

lemma split_off_split_off:
  "split_off D' U' (split_off D U st) = split_off (D \<union> D') (U \<union> U') st"
proof -
  have u: "filter (\<lambda>(u, d). u \<notin> U') (filter (\<lambda>(u, d). u \<notin> U) xs)
         = filter (\<lambda>(u, d). u \<notin> U \<union> U') xs" for xs :: "(string \<times> user) list"
    by (induction xs) auto
  have s: "map (\<lambda>(k, d). (k, d\<lparr>srv_users := filter (\<lambda>u. u \<notin> U') (srv_users d)\<rparr>))
             (filter (\<lambda>(k, d). k \<notin> D')
                (map (\<lambda>(k, d). (k, d\<lparr>srv_users := filter (\<lambda>u. u \<notin> U) (srv_users d)\<rparr>))
                   (filter (\<lambda>(k, d). k \<notin> D) xs)))
         = map (\<lambda>(k, d). (k, d\<lparr>srv_users := filter (\<lambda>u. u \<notin> U \<union> U') (srv_users d)\<rparr>))
             (filter (\<lambda>(k, d). k \<notin> D \<union> D') xs)" for xs :: "(string \<times> server) list"
    by (induction xs) (auto simp: conj_commute)
  have "channels (split_off D' U' (split_off D U st)) = channels (split_off (D \<union> D') (U \<union> U') st)"
    by (simp add: split_off_def drop_empty_purge_twice)
  moreover have "users (split_off D' U' (split_off D U st)) = users (split_off (D \<union> D') (U \<union> U') st)"
    by (simp add: split_off_def u del: filter_filter)
  moreover have "servers (split_off D' U' (split_off D U st))
      = servers (split_off (D \<union> D') (U \<union> U') st)"
    by (simp add: split_off_def s del: map_map filter_filter)
  moreover have "network.more (split_off D' U' (split_off D U st))
      = network.more (split_off (D \<union> D') (U \<union> U') st)"
    by (simp add: split_off_def)
  ultimately show ?thesis
    by (intro network.equality) (simp_all add: split_off_def)
qed

lemma delete_server_split_off:
  "st\<lparr>servers := AList.delete x (servers st)\<rparr> = split_off {x} {} st"
proof -
  have b: "AList.delete x xs
      = map (\<lambda>(k, d). (k, d\<lparr>srv_users := filter (\<lambda>u. u \<notin> {}) (srv_users d)\<rparr>))
          (filter (\<lambda>(k, d). k \<notin> {x}) xs)" for xs :: "(string \<times> server) list"
    by (induction xs) auto
  show ?thesis by (simp add: split_off_def b)
qed

lemma find_map_filter_Some:
  assumes "find P xs = Some x" and "Q x" and "\<And>y. P' (f y) = P y"
  shows "find P' (map f (filter Q xs)) = Some (f x)"
  using assms(1,2) by (induction xs) (auto simp: assms(3) split: if_splits)

lemma find_map_filter_None:
  assumes "find P xs = None" and "\<And>y. P' (f y) = P y"
  shows "find P' (map f (filter Q xs)) = None"
  using assms(1) by (induction xs) (auto simp: assms(2) split: if_splits)

lemma get_SID_split_off:
  assumes key: "has_key (servers st) k" and out: "k \<notin> D" and stable: "get_SID st k = k"
  shows "get_SID (split_off D U st) k = k"
proof -
  let ?st1 = "split_off D U st"
  let ?P = "\<lambda>(k', v). lower (srv_name v) = lower k"
  let ?f = "\<lambda>(k', d). (k', d\<lparr>srv_users := filter (\<lambda>u. u \<notin> U) (srv_users d)\<rparr>)"
  let ?Q = "\<lambda>(k', d). k' \<notin> D"
  have srvs1: "servers ?st1 = map ?f (filter ?Q (servers st))" by (simp add: split_off_def)
  have Pf: "?P (?f y) = ?P y" for y :: "string \<times> server" by (cases y) simp
  show ?thesis
  proof (cases "has_key (servers ?st1) (lower k)")
    case True
    then have "has_key (servers st) (lower k)" by (simp add: has_key_split_off)
    then have "lower k = k" using stable by (simp add: get_SID_def)
    then show ?thesis using True by (simp add: get_SID_def)
  next
    case False
    have nk: "\<not> has_key (servers st) (lower k)"
    proof
      assume h: "has_key (servers st) (lower k)"
      then have "lower k = k" using stable by (simp add: get_SID_def)
      then have "has_key (servers ?st1) (lower k)" using key out by (simp add: has_key_split_off)
      with False show False by simp
    qed
    show ?thesis
    proof (cases "find ?P (servers st)")
      case None
      then have "find ?P (servers ?st1) = None"
        unfolding srvs1 using find_map_filter_None [of ?P "servers st" ?P ?f ?Q] Pf by blast
      then show ?thesis using False by (simp add: get_SID_def)
    next
      case (Some e)
      obtain k' v where e: "e = (k', v)" by (cases e)
      have "k' = k" using stable nk Some e by (simp add: get_SID_def)
      then have "?Q e" using out e by simp
      then have "find ?P (servers ?st1) = Some (?f e)"
        unfolding srvs1 using find_map_filter_Some [of ?P "servers st" e ?Q ?P ?f] Some Pf by blast
      then show ?thesis using False e \<open>k' = k\<close> by (simp add: get_SID_def)
    qed
  qed
qed

lemma split_off_empty: "split_off {} {} st = st"
proof -
  have s: "map (\<lambda>(k, d). (k, d\<lparr>srv_users := filter (\<lambda>u. u \<notin> {}) (srv_users d)\<rparr>))
             (filter (\<lambda>(k, d). k \<notin> {}) xs) = xs"
    for xs :: "(string \<times> server) list"
    by (induction xs) auto
  have u: "filter (\<lambda>(u, d). u \<notin> {}) xs = xs" for xs :: "(string \<times> user) list"
    by (induction xs) auto
  show ?thesis by (simp add: split_off_def s u)
qed

lemma squit_users_split_off:
  assumes "distinct us" and "set us \<subseteq> fst ` set (users st)"
  shows "\<exists>an'. squit_users old us (st, au, an)
             = (split_off {} (set us) st, Inr (au @ us, an'))"
  using assms
proof (induction us arbitrary: st au an)
  case Nil
  show ?case by (simp add: split_off_empty)
next
  case (Cons u us)
  from Cons.prems(2) have "u \<in> fst ` set (users st)" by simp
  then obtain ud where ud: "map_of (users st) u = Some ud"
    by (metis map_of_eq_None_iff not_Some_eq)
  have d: "distinct us" and nu: "u \<notin> set us" using Cons.prems(1) by simp_all
  have sub: "set us \<subseteq> fst ` set (users (remove_client st u))"
    using Cons.prems(2) nu by (auto simp: remove_client_split_off user_keys_split_off)
  from Cons.IH [OF d sub] obtain an' where
    "squit_users old us (remove_client st u, au @ [u],
        fold (\<lambda>(name, cdata) d.
                if u \<in> set (chan_users cdata) then nicks_append name (user_nick ud) d else d)
             (snapshot_now old st) an)
       = (split_off {} (set us) (remove_client st u), Inr ((au @ [u]) @ us, an'))"
    by blast
  moreover have "split_off {} (set us) (remove_client st u) = split_off {} (set (u # us)) st"
    by (simp add: remove_client_split_off split_off_split_off)
  ultimately show ?case using ud by simp
qed

lemma below_self [simp]: "x \<in> below srvs x"
  by (simp add: below_def)

lemma below_trans:
  "(c, x) \<in> uplink_rel srvs \<Longrightarrow> below srvs c \<subseteq> below srvs x"
  by (auto simp: below_def intro: rtrancl_into_rtrancl)

lemma homed_set_mono: "A \<subseteq> B \<Longrightarrow> homed_set srvs A \<subseteq> homed_set srvs B"
  by (auto simp: homed_set_def)

lemma homed_set_Un: "homed_set srvs (A \<union> B) = homed_set srvs A \<union> homed_set srvs B"
  by (auto simp: homed_set_def)

lemma homed_set_empty [simp]: "homed_set srvs {} = {}"
  by (simp add: homed_set_def)

lemma disjoint_children:
  assumes c1: "(c1, x) \<in> uplink_rel srvs" and c2: "(c2, x) \<in> uplink_rel srvs"
    and ne: "c1 \<noteq> c2" and acyc: "(x, x) \<notin> trancl (uplink_rel srvs)"
  shows "below srvs c1 \<inter> below srvs c2 = {}"
proof -
  have one: False
    if a: "(a, x) \<in> uplink_rel srvs" and b: "(b, x) \<in> uplink_rel srvs" and "a \<noteq> b"
      and ab: "(a, b) \<in> rtrancl (uplink_rel srvs)" for a b
  proof -
    from ab \<open>a \<noteq> b\<close> obtain z where az: "(a, z) \<in> uplink_rel srvs"
      and zb: "(z, b) \<in> rtrancl (uplink_rel srvs)"
      by (auto elim: converse_rtranclE)
    have "z = x" using az a single_valued_uplink_rel [of srvs] by (auto simp: single_valued_def)
    then have "(x, x) \<in> trancl (uplink_rel srvs)"
      using zb b by (auto intro: rtrancl_into_trancl1)
    with acyc show False by simp
  qed
  show ?thesis
  proof (rule ccontr)
    assume "below srvs c1 \<inter> below srvs c2 \<noteq> {}"
    then obtain k where k1: "(k, c1) \<in> rtrancl (uplink_rel srvs)"
      and k2: "(k, c2) \<in> rtrancl (uplink_rel srvs)"
      by (auto simp: below_def)
    from single_valued_confluent [OF single_valued_uplink_rel k1 k2]
    have "(c1, c2) \<in> rtrancl (uplink_rel srvs) \<or> (c2, c1) \<in> rtrancl (uplink_rel srvs)" .
    then show False using one [OF c1 c2 ne] one [OF c2 c1] ne by auto
  qed
qed

lemma below_children:
  assumes "distinct (map fst srvs)" and "(x, x) \<notin> trancl (uplink_rel srvs)"
  shows "(\<Union>c \<in> set (children srvs x). below srvs c) = below srvs x - {x}"
proof
  show "(\<Union>c \<in> set (children srvs x). below srvs c) \<subseteq> below srvs x - {x}"
  proof
    fix k assume "k \<in> (\<Union>c \<in> set (children srvs x). below srvs c)"
    then obtain c where c: "c \<in> set (children srvs x)" and k: "k \<in> below srvs c" by blast
    have cx: "(c, x) \<in> uplink_rel srvs" using c assms(1) by (simp add: children_iff)
    have "k \<in> below srvs x" using below_trans [OF cx] k by blast
    moreover have "k \<noteq> x"
    proof
      assume "k = x"
      then have "(x, c) \<in> rtrancl (uplink_rel srvs)" using k by (simp add: below_def)
      then have "(x, x) \<in> trancl (uplink_rel srvs)" using cx by (auto intro: rtrancl_into_trancl1)
      with assms(2) show False by simp
    qed
    ultimately show "k \<in> below srvs x - {x}" by simp
  qed
next
  show "below srvs x - {x} \<subseteq> (\<Union>c \<in> set (children srvs x). below srvs c)"
  proof
    fix k assume "k \<in> below srvs x - {x}"
    then have kx: "(k, x) \<in> rtrancl (uplink_rel srvs)" and ne: "k \<noteq> x"
      by (simp_all add: below_def)
    from kx ne obtain y where ky: "(k, y) \<in> rtrancl (uplink_rel srvs)"
      and yx: "(y, x) \<in> uplink_rel srvs"
      by (auto elim: rtranclE)
    have "y \<in> set (children srvs x)" using yx assms(1) by (simp add: children_iff)
    moreover have "k \<in> below srvs y" using ky by (simp add: below_def)
    ultimately show "k \<in> (\<Union>c \<in> set (children srvs x). below srvs c)" by blast
  qed
qed

text \<open>A pending child stays ready after a sibling's subtree has been split off.\<close>

lemma ready_split_off:
  assumes r: "ready d st c" and dis: "below (servers st) c \<inter> D = {}"
  shows "ready d (split_off D U st) c"
    and "below (servers (split_off D U st)) c = below (servers st) c"
proof -
  show b: "below (servers (split_off D U st)) c = below (servers st) c"
    using dis by (rule below_split_off)
  have cD: "c \<notin> D" using dis below_self [of c "servers st"] by blast
  have "homed_set (servers (split_off D U st)) (below (servers st) c)
      \<subseteq> fst ` set (users (split_off D U st))"
  proof -
    have "homed_set (servers st) (below (servers st) c - D) \<subseteq> fst ` set (users st)"
      using r homed_set_mono [of "below (servers st) c - D" "below (servers st) c" "servers st"]
      unfolding ready_def by blast
    then show ?thesis by (auto simp: homed_set_split_off user_keys_split_off)
  qed
  moreover have "\<forall>k. has_key (servers (split_off D U st)) k \<longrightarrow> get_SID (split_off D U st) k = k"
    using r unfolding ready_def by (auto simp: has_key_split_off intro: get_SID_split_off)
  moreover have "\<exists>n<d. height_le n (servers (split_off D U st)) c"
    using r unfolding ready_def by (auto intro: height_le_split_off)
  ultimately show "ready d (split_off D U st) c"
    using r cD unfolding ready_def
    by (simp add: b distinct_split_off has_key_split_off)
qed

lemma children_Cons:
  "children ((sid, data) # xs) x
     = (if srv_uplink data = Some x then sid # children xs x else children xs x)"
  by (simp add: children_def)

lemma children_keys: "set (children xs x) \<subseteq> fst ` set xs"
  by (force simp: children_def)

lemma squit_servers_cascade:
  assumes rec: "\<And>st c rest. ready d st c \<Longrightarrow> cascaded st c (rec st (c # rest))"
  shows "distinct (map fst xs) \<Longrightarrow>
         (\<forall>c \<in> set (children xs x). ready d st c \<and> (c, x) \<in> uplink_rel (servers st)) \<Longrightarrow>
         (x, x) \<notin> trancl (uplink_rel (servers st)) \<Longrightarrow>
         \<exists>us ds. squit_servers rec x xs (st, au, asv)
                    = (split_off (\<Union>c \<in> set (children xs x). below (servers st) c)
                         (homed_set (servers st) (\<Union>c \<in> set (children xs x). below (servers st) c)) st,
                       Inr (au @ us, asv @ ds))
                \<and> set ds = (\<Union>c \<in> set (children xs x). below (servers st) c)
                \<and> distinct ds
                \<and> set us = homed_set (servers st) (\<Union>c \<in> set (children xs x). below (servers st) c)"
proof (induction xs arbitrary: st au asv)
  case Nil
  show ?case by (simp add: children_def split_off_empty)
next
  case (Cons e xs)
  obtain sid data where e: "e = (sid, data)" by (cases e)
  have dxs: "distinct (map fst xs)" and sid_new: "sid \<notin> fst ` set xs"
    using Cons.prems(1) by (simp_all add: e)
  show ?case
  proof (cases "srv_uplink data = Some x")
    case False
    have ch: "children (e # xs) x = children xs x" using False by (simp add: e children_Cons)
    have p2: "\<forall>c \<in> set (children xs x). ready d st c \<and> (c, x) \<in> uplink_rel (servers st)"
      using Cons.prems(2) unfolding ch .
    have step: "squit_servers rec x (e # xs) (st, au, asv) = squit_servers rec x xs (st, au, asv)"
      using False by (simp add: e)
    show ?thesis
      unfolding ch step using Cons.IH [OF dxs p2 Cons.prems(3), of au asv] .
  next
    case True
    have ch: "children (e # xs) x = sid # children xs x" using True by (simp add: e children_Cons)
    let ?D1 = "below (servers st) sid"
    let ?U1 = "homed_set (servers st) ?D1"
    let ?st1 = "split_off ?D1 ?U1 st"
    let ?DD = "\<Union>c \<in> set (children xs x). below (servers st) c"
    have rs: "ready d st sid" and sx: "(sid, x) \<in> uplink_rel (servers st)"
      using Cons.prems(2) by (simp_all add: ch)
    from rec [OF rs, of "[''0'', ''PyLink: Automatically splitting leaf servers of '' @ sid]"]
    obtain p where p: "rec st [sid, ''0'', ''PyLink: Automatically splitting leaf servers of '' @ sid]
          = (?st1, Inr (Some p))"
      and pD: "set (sq_affected_servers p) = ?D1" and pd: "distinct (sq_affected_servers p)"
      and pU: "set (sq_users p) = ?U1"
      unfolding cascaded_def by auto
    have pend: "ready d st c \<and> (c, x) \<in> uplink_rel (servers st) \<and> c \<noteq> sid
        \<and> below (servers st) c \<inter> ?D1 = {}"
      if "c \<in> set (children xs x)" for c
    proof -
      have a: "ready d st c" and b: "(c, x) \<in> uplink_rel (servers st)"
        using Cons.prems(2) that by (simp_all add: ch)
      have ne: "c \<noteq> sid" using that children_keys [of xs x] sid_new by blast
      have "below (servers st) c \<inter> ?D1 = {}"
        using disjoint_children [OF b sx ne Cons.prems(3)] .
      then show ?thesis using a b ne by simp
    qed
    have pend1: "\<forall>c \<in> set (children xs x).
        ready d ?st1 c \<and> (c, x) \<in> uplink_rel (servers ?st1)"
    proof
      fix c assume c: "c \<in> set (children xs x)"
      from pend [OF c] have a: "ready d st c" and b: "(c, x) \<in> uplink_rel (servers st)"
        and dis: "below (servers st) c \<inter> ?D1 = {}" by simp_all
      have "c \<notin> ?D1" using dis below_self [of c "servers st"] by blast
      then have "(c, x) \<in> uplink_rel (servers ?st1)" using b by (simp add: uplink_rel_split_off)
      then show "ready d ?st1 c \<and> (c, x) \<in> uplink_rel (servers ?st1)"
        using ready_split_off(1) [OF a dis] by simp
    qed
    have acyc1: "(x, x) \<notin> trancl (uplink_rel (servers ?st1))"
    proof -
      have "uplink_rel (servers ?st1) \<subseteq> uplink_rel (servers st)"
        by (auto simp: uplink_rel_split_off)
      then show ?thesis using Cons.prems(3) trancl_mono by blast
    qed
    have DD1: "(\<Union>c \<in> set (children xs x). below (servers ?st1) c) = ?DD"
    proof -
      have "below (servers ?st1) c = below (servers st) c" if "c \<in> set (children xs x)" for c
        using pend [OF that] ready_split_off(2) by blast
      then show ?thesis by simp
    qed
    have disj: "?DD \<inter> ?D1 = {}" using pend by blast
    from Cons.IH [OF dxs pend1 acyc1, of "au @ sq_users p" "asv @ sq_affected_servers p"]
    obtain us ds where
      run: "squit_servers rec x xs (?st1, au @ sq_users p, asv @ sq_affected_servers p)
          = (split_off ?DD (homed_set (servers ?st1) ?DD) ?st1,
             Inr ((au @ sq_users p) @ us, (asv @ sq_affected_servers p) @ ds))"
      and ds: "set ds = ?DD" and dds: "distinct ds"
      and us: "set us = homed_set (servers ?st1) ?DD"
      unfolding DD1 by blast
    have hU: "homed_set (servers ?st1) ?DD = homed_set (servers st) ?DD - ?U1"
    proof -
      have "?DD - ?D1 = ?DD" using disj by blast
      then show ?thesis by (simp add: homed_set_split_off)
    qed
    have all: "(\<Union>c \<in> set (children (e # xs) x). below (servers st) c) = ?D1 \<union> ?DD"
      by (simp add: ch)
    have st_eq: "split_off ?DD (homed_set (servers ?st1) ?DD) ?st1
        = split_off (?D1 \<union> ?DD) (homed_set (servers st) (?D1 \<union> ?DD)) st"
    proof -
      have "?U1 \<union> (homed_set (servers st) ?DD - ?U1) = homed_set (servers st) (?D1 \<union> ?DD)"
        by (auto simp: homed_set_Un)
      then show ?thesis by (simp add: split_off_split_off hU)
    qed
    have "squit_servers rec x (e # xs) (st, au, asv)
        = squit_servers rec x xs (?st1, au @ sq_users p, asv @ sq_affected_servers p)"
      using True p by (simp add: e)
    also have "\<dots> = (split_off (?D1 \<union> ?DD) (homed_set (servers st) (?D1 \<union> ?DD)) st,
        Inr (au @ (sq_users p @ us), asv @ (sq_affected_servers p @ ds)))"
      using run st_eq by simp
    finally have res: "squit_servers rec x (e # xs) (st, au, asv)
        = (split_off (?D1 \<union> ?DD) (homed_set (servers st) (?D1 \<union> ?DD)) st,
           Inr (au @ (sq_users p @ us), asv @ (sq_affected_servers p @ ds)))" .
    have s1: "set (sq_affected_servers p @ ds) = ?D1 \<union> ?DD" using pD ds by simp
    have s2: "distinct (sq_affected_servers p @ ds)" using pd dds pD ds disj by auto
    have s3: "set (sq_users p @ us) = homed_set (servers st) (?D1 \<union> ?DD)"
      using pU us hU by (auto simp: homed_set_Un)
    show ?thesis
      unfolding all using res s1 s2 s3 by blast
  qed
qed

lemma homed_set_single:
  "map_of srvs x = Some srv \<Longrightarrow> homed_set srvs {x} = set (srv_users srv)"
  by (auto simp: homed_set_def)

lemma handle_squit_Suc_run:
  assumes "get_SID st a0 = x" and "Some x \<noteq> net_sid st" and "Some x \<noteq> net_uplink st"
    and "has_key (servers st) x"
    and "squit_servers (handle_squit d) x (servers st) (st, [], [x]) = (st1, Inr (users1, asv))"
    and "map_of (servers st1) x = Some srv1"
    and "squit_users (channels st) (remdups (srv_users srv1)) (st1, users1, [])
           = (st2, Inr (au, an))"
    and "map_of (servers st2) x = Some srv2"
  shows "handle_squit (Suc d) st (a0 # rest)
       = (st2\<lparr>servers := AList.delete x (servers st2)\<rparr>,
          Inr (Some \<lparr>sq_target = x, sq_users = au, sq_name = srv_name srv2,
                     sq_uplink = srv_uplink srv2, sq_nicks = an, sq_serverdata = srv2,
                     sq_channeldata = snapshot_now (channels st) st2,
                     sq_affected_servers = asv\<rparr>))"
  using assms by (simp add: Let_def)

lemma handle_squit_cascade:
  "ready d st x \<Longrightarrow> cascaded st x (handle_squit d st (x # rest))"
proof (induction d arbitrary: st x rest)
  case 0
  then show ?case by (simp add: ready_def)
next
  case (Suc d)
  let ?srvs = "servers st"
  from Suc.prems obtain n where dk: "distinct (map fst ?srvs)" and key: "has_key ?srvs x"
    and n: "n < Suc d" and h: "height_le n ?srvs x"
    and stable: "\<forall>k. has_key ?srvs k \<longrightarrow> get_SID st k = k"
    and guard: "\<forall>k \<in> below ?srvs x. Some k \<noteq> net_sid st \<and> Some k \<noteq> net_uplink st"
    and known: "homed_set ?srvs (below ?srvs x) \<subseteq> fst ` set (users st)"
    unfolding ready_def by blast
  have sid: "get_SID st x = x" using stable key by simp
  have gx: "Some x \<noteq> net_sid st" "Some x \<noteq> net_uplink st" using guard by simp_all
  have acyc: "(x, x) \<notin> trancl (uplink_rel ?srvs)" using height_le_acyclic [OF dk h] .
  have pending: "\<forall>c \<in> set (children ?srvs x). ready d st c \<and> (c, x) \<in> uplink_rel ?srvs"
  proof
    fix c assume c: "c \<in> set (children ?srvs x)"
    have cx: "(c, x) \<in> uplink_rel ?srvs" using c dk by (simp add: children_iff)
    from height_le_child [OF dk h cx] have n0: "0 < n" and hc: "height_le (n - 1) ?srvs c"
      by simp_all
    have nd: "n - 1 < d" using n n0 by simp
    have kc: "has_key ?srvs c" using c children_keys [of ?srvs x] by (auto simp: has_key_def)
    have sub: "below ?srvs c \<subseteq> below ?srvs x" using below_trans [OF cx] .
    have "homed_set ?srvs (below ?srvs c) \<subseteq> fst ` set (users st)"
      using known homed_set_mono [OF sub, of ?srvs] by blast
    then have "ready d st c"
      unfolding ready_def using dk kc nd hc stable guard sub by blast
    then show "ready d st c \<and> (c, x) \<in> uplink_rel ?srvs" using cx by simp
  qed
  define DD where "DD = below ?srvs x - {x}"
  define UU where "UU = homed_set ?srvs DD"
  define st1 where "st1 = split_off DD UU st"
  have DD: "(\<Union>c \<in> set (children ?srvs x). below ?srvs c) = DD"
    unfolding DD_def using below_children [OF dk acyc] .
  from squit_servers_cascade [of d "handle_squit d" ?srvs x st "[]" "[x]",
      OF Suc.IH dk pending acyc]
  obtain us ds where
    loop: "squit_servers (handle_squit d) x ?srvs (st, [], [x]) = (st1, Inr (us, x # ds))"
    and ds: "set ds = DD" and dds: "distinct ds" and us: "set us = UU"
    unfolding DD st1_def UU_def by auto
  from key obtain srv where srv: "map_of ?srvs x = Some srv"
    unfolding has_key_def by (metis map_of_eq_None_iff not_Some_eq)
  define srv1 where "srv1 = srv\<lparr>srv_users := filter (\<lambda>u. u \<notin> UU) (srv_users srv)\<rparr>"
  have xDD: "x \<notin> DD" by (simp add: DD_def)
  have srv1: "map_of (servers st1) x = Some srv1"
    unfolding st1_def srv1_def using srv xDD by (simp add: map_of_servers_split_off)
  define Ux where "Ux = set (srv_users srv1)"
  have Ux: "Ux = set (srv_users srv) - UU" by (auto simp: Ux_def srv1_def)
  have sub1: "set (remdups (srv_users srv1)) \<subseteq> fst ` set (users st1)"
  proof -
    have "set (srv_users srv) \<subseteq> homed_set ?srvs (below ?srvs x)"
      using srv by (auto simp: homed_set_def)
    then have "set (srv_users srv) - UU \<subseteq> fst ` set (users st) - UU" using known by blast
    then show ?thesis using Ux by (simp add: st1_def user_keys_split_off Ux_def)
  qed
  define st2 where "st2 = split_off {} Ux st1"
  from squit_users_split_off [of "remdups (srv_users srv1)" st1 "channels st" us "[]", OF _ sub1]
  obtain an' where users_loop:
    "squit_users (channels st) (remdups (srv_users srv1)) (st1, us, [])
       = (st2, Inr (us @ remdups (srv_users srv1), an'))"
    unfolding st2_def Ux_def by auto
  define srv2 where "srv2 = srv1\<lparr>srv_users := filter (\<lambda>u. u \<notin> Ux) (srv_users srv1)\<rparr>"
  have srv2: "map_of (servers st2) x = Some srv2"
    unfolding st2_def srv2_def by (subst map_of_servers_split_off) (simp add: srv1)
  have bx: "below ?srvs x = insert x DD" by (auto simp: DD_def)
  have hb: "homed_set ?srvs (below ?srvs x) = UU \<union> Ux"
  proof -
    have "homed_set ?srvs (below ?srvs x) = homed_set ?srvs ({x} \<union> DD)"
      using bx by simp
    also have "\<dots> = set (srv_users srv) \<union> UU"
      by (simp only: homed_set_Un homed_set_single [OF srv] UU_def)
    finally show ?thesis using Ux by auto
  qed
  have final: "st2\<lparr>servers := AList.delete x (servers st2)\<rparr>
      = split_off (below ?srvs x) (homed_set ?srvs (below ?srvs x)) st"
  proof -
    have "st2\<lparr>servers := AList.delete x (servers st2)\<rparr> = split_off {x} {} st2"
      by (rule delete_server_split_off)
    also have "\<dots> = split_off (DD \<union> {} \<union> {x}) (UU \<union> Ux \<union> {}) st"
      unfolding st2_def st1_def by (simp only: split_off_split_off)
    also have "DD \<union> {} \<union> {x} = below ?srvs x" using bx by auto
    also have "UU \<union> Ux \<union> {} = homed_set ?srvs (below ?srvs x)" using hb by simp
    finally show ?thesis .
  qed
  define p where "p = \<lparr>sq_target = x, sq_users = us @ remdups (srv_users srv1),
             sq_name = srv_name srv2, sq_uplink = srv_uplink srv2, sq_nicks = an',
             sq_serverdata = srv2, sq_channeldata = snapshot_now (channels st) st2,
             sq_affected_servers = x # ds\<rparr>"
  have res: "handle_squit (Suc d) st (x # rest)
      = (st2\<lparr>servers := AList.delete x (servers st2)\<rparr>, Inr (Some p))"
    unfolding p_def
    by (rule handle_squit_Suc_run [OF sid gx key loop srv1 users_loop srv2])
  have a: "set (sq_affected_servers p) = below ?srvs x" using ds bx by (simp add: p_def)
  have b: "distinct (sq_affected_servers p)" using ds dds xDD by (simp add: p_def)
  have c: "set (sq_users p) = homed_set ?srvs (below ?srvs x)"
    using us hb by (simp add: p_def Ux_def)
  have t: "sq_target p = x" by (simp add: p_def)
  show ?case
    unfolding cascaded_def res final using a b c t by blast
qed

lemma handle_squit_resolved:
  assumes "get_SID st (get_SID st a0) = get_SID st a0"
  shows "handle_squit d st (a0 # rest) = handle_squit d st (get_SID st a0 # rest)"
proof (cases d)
  case 0
  then show ?thesis by simp
next
  case (Suc n)
  show ?thesis unfolding Suc handle_squit.simps list.case assms by (rule refl)
qed

lemma set_homed: "set (homed srvs ks) = homed_set srvs (set ks)"
  by (auto simp: homed_def homed_set_def split: option.splits) (metis+)

lemma has_key_map_of: "has_key al k \<longleftrightarrow> (\<exists>v. map_of al k = Some v)"
  unfolding has_key_def by (metis map_of_eq_None_iff not_Some_eq)

text \<open>
  C3, amended. In a network whose server table forms a tree, whose servers list only
  known users, each on one server, and in which every SID resolves to itself, let X be
  the server the split target resolves to, known, with neither this side's SID nor its
  uplink in the subtree of X. Then, with a recursion limit above the number of servers,
  the cascade returns a result; the server table is the old one without the subtree of X
  (the servers transitively uplinked to X, and X), every other server unchanged; the user
  table is the old one without the users homed on those servers; every channel that has
  users, none of them removed, keeps its entry unchanged; and the affected-servers list
  has exactly X and the removed servers, without duplicates.
\<close>

theorem handle_squit_removes_subtree:
  assumes tree: "server_tree st" and homes: "homes_ok st" and stable: "sid_stable st"
    and known: "has_key (servers st) (get_SID st a0)"
    and spare: "spares_self st (subtree (length (servers st)) (servers st) (get_SID st a0))"
    and depth: "length (servers st) < depth"
  shows "\<exists>st' p.
      handle_squit depth st (a0 # rest) = (st', Inr (Some p))
      \<and> servers st'
          = filter (\<lambda>(k, d). k \<notin> set (subtree (length (servers st)) (servers st) (get_SID st a0)))
              (servers st)
      \<and> users st'
          = filter (\<lambda>(u, d). u \<notin> set (homed (servers st)
                (subtree (length (servers st)) (servers st) (get_SID st a0)))) (users st)
      \<and> (\<forall>c ch. map_of (channels st) c = Some ch \<and> chan_users ch \<noteq> []
            \<and> set (chan_users ch) \<inter> set (homed (servers st)
                (subtree (length (servers st)) (servers st) (get_SID st a0))) = {}
            \<longrightarrow> map_of (channels st') c = Some ch)
      \<and> set (sq_affected_servers p)
          = set (subtree (length (servers st)) (servers st) (get_SID st a0))
      \<and> get_SID st a0 \<in> set (sq_affected_servers p)
      \<and> distinct (sq_affected_servers p)
      \<and> set (sq_users p)
          = set (homed (servers st) (subtree (length (servers st)) (servers st) (get_SID st a0)))"
proof -
  define X where "X = get_SID st a0"
  define N where "N = length (servers st)"
  define D where "D = subtree N (servers st) X"
  define U where "U = homed (servers st) D"
  have dk: "distinct (map fst (servers st))" using tree by (simp add: server_tree_def)
  obtain srv where srv: "map_of (servers st) X = Some srv"
    using known by (auto simp: X_def has_key_map_of)
  then have inX: "(X, srv) \<in> set (servers st)" by (rule map_of_SomeD)
  have h: "height_le N (servers st) X"
    using tree inX by (auto simp: server_tree_def list_all_iff N_def)
  have setD: "set D = below (servers st) X" unfolding D_def using set_subtree [OF dk h] .
  have setU: "set U = homed_set (servers st) (below (servers st) X)"
    by (simp add: U_def set_homed setD)
  have st: "\<forall>k. has_key (servers st) k \<longrightarrow> get_SID st k = k"
  proof (intro allI impI)
    fix k assume "has_key (servers st) k"
    then obtain d where "(k, d) \<in> set (servers st)"
      by (auto simp: has_key_map_of dest: map_of_SomeD)
    then show "get_SID st k = k" using stable by (auto simp: sid_stable_def list_all_iff)
  qed
  have guard: "\<forall>k \<in> below (servers st) X. Some k \<noteq> net_sid st \<and> Some k \<noteq> net_uplink st"
    using spare unfolding spares_self_def list_all_iff X_def [symmetric] N_def [symmetric]
      D_def [symmetric] setD by simp
  have home: "has_key (users st) u \<and> (\<forall>(k', d') \<in> set (servers st). k' = k \<or> u \<notin> set (srv_users d'))"
    if "(k, d) \<in> set (servers st)" and "u \<in> set (srv_users d)" for k d u
    using homes that unfolding homes_ok_def list_all_iff by fast
  have usr: "homed_set (servers st) (below (servers st) X) \<subseteq> fst ` set (users st)"
  proof
    fix u assume "u \<in> homed_set (servers st) (below (servers st) X)"
    then obtain k d where "map_of (servers st) k = Some d" "u \<in> set (srv_users d)"
      by (auto simp: homed_set_def)
    then show "u \<in> fst ` set (users st)"
      using home [of k d u] by (auto simp: has_key_def dest: map_of_SomeD)
  qed
  have rdy: "ready depth st X"
    unfolding ready_def using dk known h depth st guard usr
    by (auto simp: X_def N_def)
  have "get_SID st X = X" using st known by (simp add: X_def)
  then have run: "handle_squit depth st (a0 # rest) = handle_squit depth st (X # rest)"
    unfolding X_def by (rule handle_squit_resolved)
  from handle_squit_cascade [OF rdy, of rest] obtain p where
    res: "handle_squit depth st (X # rest) = (split_off (set D) (set U) st, Inr (Some p))"
    and pa: "set (sq_affected_servers p) = set D" and pd: "distinct (sq_affected_servers p)"
    and pu: "set (sq_users p) = set U"
    unfolding cascaded_def setD setU by blast
  have keep: "d\<lparr>srv_users := filter (\<lambda>u. u \<notin> set U) (srv_users d)\<rparr> = d"
    if "(k, d) \<in> set (servers st)" and "k \<notin> set D" for k d
  proof -
    have "u \<notin> set U" if u: "u \<in> set (srv_users d)" for u
    proof
      assume "u \<in> set U"
      then obtain k' d' where k': "k' \<in> set D" and m: "map_of (servers st) k' = Some d'"
        and u': "u \<in> set (srv_users d')"
        unfolding setU setD [symmetric] by (auto simp: homed_set_def)
      have "(k', d') \<in> set (servers st)" using m by (rule map_of_SomeD)
      then have "k' = k" using home [OF \<open>(k, d) \<in> set (servers st)\<close> u] u' by blast
      then show False using k' \<open>k \<notin> set D\<close> by simp
    qed
    then have "filter (\<lambda>u. u \<notin> set U) (srv_users d) = srv_users d" by simp
    then show ?thesis by simp
  qed
  have srvs: "servers (split_off (set D) (set U) st) = filter (\<lambda>(k, d). k \<notin> set D) (servers st)"
  proof -
    have "map (\<lambda>(k, d). (k, d\<lparr>srv_users := filter (\<lambda>u. u \<notin> set U) (srv_users d)\<rparr>))
            (filter (\<lambda>(k, d). k \<notin> set D) (servers st))
        = map (\<lambda>e. e) (filter (\<lambda>(k, d). k \<notin> set D) (servers st))"
      by (rule map_cong) (auto simp: keep)
    then show ?thesis by (simp add: split_off_def)
  qed
  have XD: "X \<in> set D" by (simp add: setD)
  have unrel: "\<forall>c ch. map_of (channels st) c = Some ch \<and> chan_users ch \<noteq> []
      \<and> set (chan_users ch) \<inter> set U = {}
      \<longrightarrow> map_of (channels (split_off (set D) (set U) st)) c = Some ch"
  proof (intro allI impI)
    fix c ch
    assume a: "map_of (channels st) c = Some ch \<and> chan_users ch \<noteq> []
      \<and> set (chan_users ch) \<inter> set U = {}"
    then have f: "filter (\<lambda>u. u \<notin> set U) (chan_users ch) = chan_users ch"
      by (auto simp: filter_id_conv)
    have m: "map_of (purge_channels (set U) (channels st)) c = Some ch"
      using a f by (simp add: purge_channels_def map_of_map)
    have "occupied (purge_channels (set U) (channels st)) c"
      using a f by (simp add: occupied_purge_channels)
    then show "map_of (channels (split_off (set D) (set U) st)) c = Some ch"
      using a m by (simp add: split_off_def map_of_drop_empty)
  qed
  have usrs: "users (split_off (set D) (set U) st) = filter (\<lambda>(u, d). u \<notin> set U) (users st)"
    by (simp add: split_off_def)
  show ?thesis
    unfolding X_def [symmetric] N_def [symmetric] D_def [symmetric] U_def [symmetric]
    using run res srvs usrs unrel pa pd pu XD
    by (intro exI [of _ "split_off (set D) (set U) st"] exI [of _ p]) simp
qed

theorem handle_squit_removes_subtree_witness:
  "\<exists>st' p. handle_squit 10 ops_net [''leaf.local'', ''split''] = (st', Inr (Some p))
      \<and> map fst (servers st') = [''0AL'', ''70M'']
      \<and> map fst (users st') = [''0ALAAAAAA'', ''70MAAAAAA'']
      \<and> map_of (channels st') ''#ops''
          = Some \<lparr>chan_users = [''0ALAAAAAA'', ''70MAAAAAA''],
                  chan_topic = ''staff'', chan_topicset = True\<rparr>
      \<and> set (sq_affected_servers p) = {''9PZ'', ''8XY''}
      \<and> distinct (sq_affected_servers p)
      \<and> set (sq_users p) = {''9PZAAAAAA'', ''8XYAAAAAA''}"
proof -
  have t: "server_tree ops_net" by code_simp
  have h: "homes_ok ops_net" by code_simp
  have s: "sid_stable ops_net" by code_simp
  have k: "has_key (servers ops_net) (get_SID ops_net ''leaf.local'')" by code_simp
  have sub: "subtree (length (servers ops_net)) (servers ops_net)
      (get_SID ops_net ''leaf.local'') = [''9PZ'', ''8XY'']" by code_simp
  have g: "spares_self ops_net (subtree (length (servers ops_net)) (servers ops_net)
      (get_SID ops_net ''leaf.local''))" by code_simp
  have d: "length (servers ops_net) < 10" by code_simp
  have hm: "homed (servers ops_net) [''9PZ'', ''8XY''] = [''9PZAAAAAA'', ''8XYAAAAAA'']"
    by code_simp
  have ops: "map_of (channels ops_net) ''#ops''
      = Some \<lparr>chan_users = [''0ALAAAAAA'', ''70MAAAAAA''],
              chan_topic = ''staff'', chan_topicset = True\<rparr>" by code_simp
  from handle_squit_removes_subtree [OF t h s k g d, of "[''split'']"]
  obtain st' p where
    r: "handle_squit 10 ops_net [''leaf.local'', ''split''] = (st', Inr (Some p))"
    and sv: "servers st' = filter (\<lambda>(k, d). k \<notin> set [''9PZ'', ''8XY'']) (servers ops_net)"
    and us: "users st' = filter (\<lambda>(u, d). u \<notin> set [''9PZAAAAAA'', ''8XYAAAAAA'']) (users ops_net)"
    and ch: "\<forall>c ch. map_of (channels ops_net) c = Some ch \<and> chan_users ch \<noteq> []
          \<and> set (chan_users ch) \<inter> set [''9PZAAAAAA'', ''8XYAAAAAA''] = {}
          \<longrightarrow> map_of (channels st') c = Some ch"
    and pa: "set (sq_affected_servers p) = set [''9PZ'', ''8XY'']"
    and pd: "distinct (sq_affected_servers p)"
    and pu: "set (sq_users p) = set [''9PZAAAAAA'', ''8XYAAAAAA'']"
    unfolding sub hm by blast
  have "map fst (servers st') = [''0AL'', ''70M'']"
    unfolding sv by (simp add: ops_net_def example_net_def)
  moreover have "map fst (users st') = [''0ALAAAAAA'', ''70MAAAAAA'']"
    unfolding us by (simp add: ops_net_def example_net_def)
  moreover have "map_of (channels st') ''#ops''
      = Some \<lparr>chan_users = [''0ALAAAAAA'', ''70MAAAAAA''],
              chan_topic = ''staff'', chan_topicset = True\<rparr>"
    using ch ops by simp
  ultimately show ?thesis using r pa pd pu by auto
qed

text \<open>
  C3, as the claim states it, fails in two ways. When this side's uplink is inside the
  subtree: in \<open>hub_net\<close> the table is a tree and 1HB is a known target that is neither
  this side's SID nor its uplink, but the recursion reaches the uplink 70M, raises
  ProtocolError, and nothing is removed. And an unrelated channel without users does not
  stay: in \<open>ops_net\<close> the split of 9PZ removes the entry of \#idle, which none of the
  removed users was in.
\<close>

theorem handle_squit_not_exact:
  "server_tree hub_net \<and> has_key (servers hub_net) ''1HB''
   \<and> get_SID hub_net ''1HB'' = ''1HB''
   \<and> Some ''1HB'' \<noteq> net_sid hub_net \<and> Some ''1HB'' \<noteq> net_uplink hub_net
   \<and> subtree 3 (servers hub_net) ''1HB'' = [''1HB'', ''70M'']
   \<and> handle_squit 10 hub_net [''1HB'', ''split''] = (hub_net, Inl ProtocolError)
   \<and> server_tree ops_net \<and> map_of (channels ops_net) ''#idle'' = Some new_channel
   \<and> map fst (channels (fst (handle_squit 10 ops_net [''9PZ'', ''split'']))) = [''#test'', ''#ops'']"
  by code_simp

text \<open>
  Outside the amended claim: the recursive call resolves the child's SID again through
  \<^verbatim>\<open>_get_SID\<close>, which lowers it first. In \<open>folded_net\<close> the child Ad of AC
  resolves to the unrelated server ad, which is removed in its place, and Ad stays.
\<close>

lemma handle_squit_case_folded_sid:
  "server_tree folded_net \<and> subtree 5 (servers folded_net) ''AC'' = [''AC'', ''Ad'']
   \<and> get_SID folded_net ''Ad'' = ''ad''
   \<and> map fst (servers (fst (handle_squit 10 folded_net [''AC'', ''split'']))) = [''AA'', ''AB'', ''Ad'']"
  by code_simp

end
